theory Spec2Isabelle
  imports Main "HOL-Library.Word"
begin

section \<open>Bad-block table of the NAND partition driver\<close>

text \<open>
  A shallow embedding of \<^verbatim>\<open>system/dev/nand/nandpart/aml-bad-block.cpp\<close> (the bad-block
  core, class \<^verbatim>\<open>AmlBadBlock\<close>) and of the bad-block entry points of
  \<^verbatim>\<open>system/dev/nand/nandpart/nandpart.cpp\<close> (the partition device, class
  \<^verbatim>\<open>NandPartDevice\<close>).

  Members of the C++ objects become fields of a record that every function takes and
  returns. The trailing underscore of the member names is dropped (\<^verbatim>\<open>table_\<close> is the
  field \<open>table\<close>). The NAND controller is not part of the repository: its three
  operations are parameters of the model, functions on an arbitrary controller state.
  Behaviour that C++ leaves undefined (an array access out of bounds, a null pointer
  dereferenced, a division by zero) is the result \<open>Inl\<close> of a fault; a loop that does not
  terminate is the result \<open>None\<close>.
\<close>

subsection \<open>Status codes, faults and data\<close>

datatype zx_status =
    ZX_OK
  | ZX_ERR_INTERNAL
  | ZX_ERR_NOT_SUPPORTED
  | ZX_ERR_NO_MEMORY
  | ZX_ERR_INVALID_ARGS
  | ZX_ERR_OUT_OF_RANGE
  | ZX_ERR_NOT_FOUND
  | ZX_ERR_IO

datatype fault = OutOfBounds | NullDeref | DivByZero

type_synonym BlockStatus = "8 word"

text \<open>
  Modelled from the spec: the header \<^verbatim>\<open>aml-bad-block.h\<close>, which declares the two block
  status values, the capacity of the reserved-entry array and the layout of the OOB
  record, is not among the sources. The spec gives one byte per block with the values
  \<open>GOOD\<close> and \<open>BAD\<close> where only equality with \<open>GOOD\<close> matters, \<open>MAX_RESERVED = 8\<close>,
  and the OOB header \<open>magic : u32, pe_cycles : u16, generation : u16\<close> (8 bytes).
\<close>

definition kNandBlockGood :: BlockStatus where
  "kNandBlockGood = 0"

definition kNandBlockBad :: BlockStatus where
  "kNandBlockBad = 1"

definition kBlockListMax :: nat where
  "kBlockListMax = 8"

definition sizeof_OobMetadata :: "32 word" where
  "sizeof_OobMetadata = 8"

definition kBadBlockTableMagic :: "32 word" where
  "kBadBlockTableMagic = 0x7462626E"

record OobMetadata =
  magic :: "32 word"
  oob_program_erase_cycles :: "16 word"
  oob_generation :: "16 word"

record BlockListEntry =
  block :: "32 word"
  program_erase_cycles :: "16 word"
  valid :: bool

text \<open>
  The constant members: \<^verbatim>\<open>nand_info_\<close> (with \<^verbatim>\<open>table_len_ = nand_info.num_blocks\<close>, as
  \<^verbatim>\<open>AmlBadBlock::Create\<close> sets it) and \<^verbatim>\<open>config_.aml\<close>.
\<close>

record Config =
  page_size :: "32 word"
  pages_per_block :: "32 word"
  num_blocks :: "32 word"
  oob_size :: "32 word"
  table_start_block :: "32 word"
  table_end_block :: "32 word"

definition table_len :: "Config \<Rightarrow> 32 word" where
  "table_len c = num_blocks c"

text \<open>
  The mutable members. \<open>table\<close> is the mapped data buffer, read at the indices below
  \<open>table_len\<close>; \<open>block_list\<close> is the array of \<open>kBlockListMax\<close> entries, read at the
  indices below \<open>kBlockListMax\<close>; \<open>block_entry\<close> is the pointer into that array, held
  as the index it points to, \<open>None\<close> for \<^verbatim>\<open>NULL\<close>.
\<close>

record 'n AmlBadBlock =
  nand :: 'n
  table :: "nat \<Rightarrow> BlockStatus"
  oob :: OobMetadata
  block_list :: "nat \<Rightarrow> BlockListEntry"
  block_entry :: "nat option"
  page :: "32 word"
  generation :: "16 word"
  found :: bool

text \<open>
  The NAND controller behind \<^verbatim>\<open>nand_.Queue\<close>. An erase takes the block; a page write
  takes the page number, the offset into the data buffer, and the two buffers it reads; a
  page read takes the same and returns the two buffers as the controller left them.
\<close>

record 'n nand_protocol =
  queue_erase :: "32 word \<Rightarrow> 'n \<Rightarrow> zx_status \<times> 'n"
  queue_write :: "32 word \<Rightarrow> 64 word \<Rightarrow> (nat \<Rightarrow> BlockStatus) \<Rightarrow> OobMetadata \<Rightarrow> 'n \<Rightarrow> zx_status \<times> 'n"
  queue_read :: "32 word \<Rightarrow> 64 word \<Rightarrow> (nat \<Rightarrow> BlockStatus) \<Rightarrow> OobMetadata \<Rightarrow> 'n
                   \<Rightarrow> zx_status \<times> (nat \<Rightarrow> BlockStatus) \<times> OobMetadata \<times> 'n"

subsection \<open>The NAND I/O adapter\<close>

definition EraseBlock :: "'n nand_protocol \<Rightarrow> 32 word \<Rightarrow> 'n AmlBadBlock \<Rightarrow> zx_status \<times> 'n AmlBadBlock" where
  "EraseBlock np blk s =
     (case queue_erase np blk (nand s) of (status, n') \<Rightarrow> (status, s\<lparr>nand := n'\<rparr>))"

definition WritePage :: "'n nand_protocol \<Rightarrow> 32 word \<Rightarrow> 64 word \<Rightarrow> 'n AmlBadBlock \<Rightarrow> zx_status \<times> 'n AmlBadBlock" where
  "WritePage np nand_page data_offset s =
     (case queue_write np nand_page data_offset (table s) (oob s) (nand s) of
        (status, n') \<Rightarrow> (status, s\<lparr>nand := n'\<rparr>))"

definition ReadPage :: "'n nand_protocol \<Rightarrow> 32 word \<Rightarrow> 64 word \<Rightarrow> 'n AmlBadBlock \<Rightarrow> zx_status \<times> 'n AmlBadBlock" where
  "ReadPage np nand_page data_offset s =
     (case queue_read np nand_page data_offset (table s) (oob s) (nand s) of
        (status, t', o', n') \<Rightarrow> (status, s\<lparr>nand := n', table := t', oob := o'\<rparr>))"

subsection \<open>Choosing a new host block\<close>

text \<open>
  The inner loop of \<^verbatim>\<open>GetNewBlock\<close>: the scan for the entry with the least number of PE
  cycles, from index \<open>i\<close> on, with the running minimum and the running index.
\<close>

function least_pe_scan :: "(nat \<Rightarrow> BlockListEntry) \<Rightarrow> nat option \<Rightarrow> nat \<Rightarrow> 16 word \<Rightarrow> nat \<Rightarrow> 16 word \<times> nat" where
  "least_pe_scan bl be i least_pe_cycles index =
     (if i < kBlockListMax then
        (if valid (bl i) \<and> Some i \<noteq> be \<and> program_erase_cycles (bl i) < least_pe_cycles
         then least_pe_scan bl be (i + 1) (program_erase_cycles (bl i)) i
         else least_pe_scan bl be (i + 1) least_pe_cycles index)
      else (least_pe_cycles, index))"
  by pat_completeness auto
termination
  by (relation "measure (\<lambda>(bl, be, i, l, x). kBlockListMax - i)") auto

definition find_least_pe :: "'n AmlBadBlock \<Rightarrow> nat" where
  "find_least_pe s = snd (least_pe_scan (block_list s) (block_entry s) 0 0xFFFF kBlockListMax)"

text \<open>The entries the selection is meant to consider: valid, and not the current host.\<close>

definition eligible :: "'n AmlBadBlock \<Rightarrow> nat \<Rightarrow> bool" where
  "eligible s j = (j < kBlockListMax \<and> valid (block_list s j) \<and> Some j \<noteq> block_entry s)"

definition invalidate :: "nat \<Rightarrow> 'n AmlBadBlock \<Rightarrow> 'n AmlBadBlock" where
  "invalidate index s = s\<lparr>block_list := (block_list s)(index := (block_list s index)\<lparr>valid := False\<rparr>)\<rparr>"

definition num_valid :: "'n AmlBadBlock \<Rightarrow> nat" where
  "num_valid s = card {i. i < kBlockListMax \<and> valid (block_list s i)}"

lemma least_pe_scan_index:
  "least_pe_scan bl be i l x = (l', x') \<Longrightarrow> x' \<noteq> x \<Longrightarrow> x' < kBlockListMax \<and> valid (bl x') \<and> Some x' \<noteq> be"
proof (induction bl be i l x rule: least_pe_scan.induct)
  case (1 bl be i l x)
  show ?case
  proof (cases "i < kBlockListMax")
    case False
    with "1.prems" show ?thesis by simp
  next
    case lt: True
    show ?thesis
    proof (cases "valid (bl i) \<and> Some i \<noteq> be \<and> program_erase_cycles (bl i) < l")
      case True
      with lt "1.prems" have run: "least_pe_scan bl be (i + 1) (program_erase_cycles (bl i)) i = (l', x')"
        by simp
      show ?thesis
      proof (cases "x' = i")
        case True
        with lt \<open>valid (bl i) \<and> Some i \<noteq> be \<and> program_erase_cycles (bl i) < l\<close> show ?thesis by simp
      next
        case False
        with "1.IH"(1) [OF lt True run] show ?thesis by simp
      qed
    next
      case False
      with lt "1.prems" have run: "least_pe_scan bl be (i + 1) l x = (l', x')"
        by simp
      from "1.IH"(2) [OF lt False run "1.prems"(2)] show ?thesis .
    qed
  qed
qed

lemma find_least_pe_valid:
  "find_least_pe s \<noteq> kBlockListMax \<Longrightarrow>
     find_least_pe s < kBlockListMax \<and> valid (block_list s (find_least_pe s))
       \<and> Some (find_least_pe s) \<noteq> block_entry s"
  unfolding find_least_pe_def
  using least_pe_scan_index [of "block_list s" "block_entry s" 0 "0xFFFF" kBlockListMax]
  by (metis prod.collapse)

lemma num_valid_invalidate:
  assumes "index < kBlockListMax" and "valid (block_list s index)"
  shows "num_valid (invalidate index s) < num_valid s"
proof -
  let ?A = "{i. i < kBlockListMax \<and> valid (block_list (invalidate index s) i)}"
  let ?B = "{i. i < kBlockListMax \<and> valid (block_list s i)}"
  have "?A \<subseteq> ?B"
    by (auto simp: invalidate_def split: if_splits)
  moreover have "index \<in> ?B" "index \<notin> ?A"
    using assms by (auto simp: invalidate_def)
  ultimately have "?A \<subset> ?B" by blast
  moreover have "finite ?B" by simp
  ultimately show ?thesis
    unfolding num_valid_def by (rule psubset_card_mono [rotated])
qed

lemma block_list_EraseBlock:
  "EraseBlock np blk s = (status, s1) \<Longrightarrow> block_list s1 = block_list s \<and> block_entry s1 = block_entry s"
  by (auto simp: EraseBlock_def split: prod.splits)

lemma num_valid_cong:
  "block_list s' = block_list s \<Longrightarrow> num_valid s' = num_valid s"
  by (simp add: num_valid_def)

text \<open>
  \<^verbatim>\<open>GetNewBlock\<close>: the \<^verbatim>\<open>for (;;)\<close> loop is the recursion. Every turn that does not return
  invalidates the entry it had chosen, so the number of valid entries decreases.
\<close>

function GetNewBlock :: "'n nand_protocol \<Rightarrow> Config \<Rightarrow> 'n AmlBadBlock \<Rightarrow> fault + (zx_status \<times> 'n AmlBadBlock)" where
  "GetNewBlock np c s =
     (let index = find_least_pe s in
      if index = kBlockListMax then Inr (ZX_ERR_NOT_FOUND, s)
      else
        let blk = block (block_list s index) in
        if \<not> unat blk < unat (table_len c) then Inl OutOfBounds
        else if table s (unat blk) \<noteq> kNandBlockGood then
          GetNewBlock np c (invalidate index s)
        else
          (case EraseBlock np blk s of
             (status, s1) \<Rightarrow>
               if status \<noteq> ZX_OK then
                 GetNewBlock np c (invalidate index (s1\<lparr>table := (table s1)(unat blk := kNandBlockBad)\<rparr>))
               else
                 Inr (ZX_OK,
                      s1\<lparr>block_entry := Some index,
                         block_list := (block_list s1)(index := (block_list s1 index)
                            \<lparr>program_erase_cycles := program_erase_cycles (block_list s1 index) + 1\<rparr>),
                         page := 0\<rparr>)))"
  by pat_completeness auto
termination
proof (relation "measure (\<lambda>(np, c, s). num_valid s)", goal_cases)
  case 1
  show ?case by simp
next
  case (2 np c s index blk)
  then have "index < kBlockListMax \<and> valid (block_list s index)"
    using find_least_pe_valid [of s] by simp
  then show ?case
    by (simp add: num_valid_invalidate)
next
  case (3 np c s index blk status s1)
  then have v: "index < kBlockListMax \<and> valid (block_list s index)"
    using find_least_pe_valid [of s] by simp
  let ?s2 = "s1\<lparr>table := (table s1)(unat blk := kNandBlockBad)\<rparr>"
  from 3 have bl: "block_list ?s2 = block_list s"
    using block_list_EraseBlock [of np blk s status s1] by simp
  with v have "num_valid (invalidate index ?s2) < num_valid ?s2"
    by (intro num_valid_invalidate) simp_all
  also have "num_valid ?s2 = num_valid s"
    using bl by (rule num_valid_cong)
  finally show ?case by simp
qed

declare GetNewBlock.simps [simp del]

lemma table_EraseBlock:
  "EraseBlock np blk s = (status, s1) \<Longrightarrow>
     table s1 = table s \<and> generation s1 = generation s \<and> page s1 = page s \<and> found s1 = found s \<and> oob s1 = oob s"
  by (auto simp: EraseBlock_def split: prod.splits)

lemma fields_WritePage:
  "WritePage np pg off s = (status, s1) \<Longrightarrow>
     table s1 = table s \<and> generation s1 = generation s \<and> page s1 = page s \<and> found s1 = found s
       \<and> oob s1 = oob s \<and> block_list s1 = block_list s \<and> block_entry s1 = block_entry s"
  by (auto simp: WritePage_def split: prod.splits)

subsection \<open>The writer\<close>

definition num_good :: "Config \<Rightarrow> 'n AmlBadBlock \<Rightarrow> nat" where
  "num_good c s = card {i. i < unat (table_len c) \<and> table s i = kNandBlockGood}"

text \<open>The page loop of the writer: \<open>n\<close> pages are still to be written, \<open>i\<close> is the loop counter.\<close>

fun write_pages :: "'n nand_protocol \<Rightarrow> Config \<Rightarrow> 32 word \<Rightarrow> nat \<Rightarrow> 32 word \<Rightarrow> 'n AmlBadBlock
                      \<Rightarrow> fault + (bool \<times> 'n AmlBadBlock)" where
  "write_pages np c blk 0 i s = Inr (True, s)"
| "write_pages np c blk (Suc n) i s =
     (let nand_page = blk * pages_per_block c + page s + i in
      case WritePage np nand_page (ucast i) s of
        (status, s1) \<Rightarrow>
          if status \<noteq> ZX_OK then
            (if unat blk < unat (table_len c)
             then Inr (False, s1\<lparr>table := (table s1)(unat blk := kNandBlockBad)\<rparr>)
             else Inl OutOfBounds)
          else write_pages np c blk n (i + 1) s1)"

definition host_unusable :: "Config \<Rightarrow> 32 word \<Rightarrow> bool \<Rightarrow> 'n AmlBadBlock \<Rightarrow> fault + bool" where
  "host_unusable c bbt_page_count use_new_block s =
     (if use_new_block then Inr True
      else case block_entry s of
        None \<Rightarrow> Inl NullDeref
      | Some e \<Rightarrow>
          let blk = block (block_list s e) in
          if \<not> unat blk < unat (table_len c) then Inl OutOfBounds
          else Inr (table s (unat blk) \<noteq> kNandBlockGood
                    \<or> page s + bbt_page_count > pages_per_block c))"

lemma write_pages_fields:
  "write_pages np c blk n i s = Inr (ok, s') \<Longrightarrow>
     generation s' = generation s \<and> page s' = page s \<and> found s' = found s \<and> oob s' = oob s
       \<and> block_list s' = block_list s \<and> block_entry s' = block_entry s
       \<and> (if ok then table s' = table s
           else unat blk < unat (table_len c) \<and> table s' = (table s)(unat blk := kNandBlockBad))"
proof (induction n arbitrary: i s)
  case 0
  then show ?case by simp
next
  case (Suc n)
  obtain status s1 where w: "WritePage np (blk * pages_per_block c + page s + i) (ucast i) s = (status, s1)"
    by (cases "WritePage np (blk * pages_per_block c + page s + i) (ucast i) s")
  note f = fields_WritePage [OF w]
  show ?case
  proof (cases "status = ZX_OK")
    case True
    with Suc.prems w have "write_pages np c blk n (i + 1) s1 = Inr (ok, s')" by simp
    from Suc.IH [OF this] f show ?thesis by (auto split: if_splits)
  next
    case False
    with Suc.prems w f show ?thesis by (auto split: if_splits)
  qed
qed

lemma good_not_bad: "kNandBlockBad \<noteq> kNandBlockGood"
  by (simp add: kNandBlockBad_def kNandBlockGood_def)

lemma GetNewBlock_fields:
  "GetNewBlock np c s = Inr (status, s') \<Longrightarrow>
     generation s' = generation s \<and> found s' = found s \<and> oob s' = oob s
     \<and> (\<forall>i. table s' i \<noteq> table s i \<longrightarrow> table s' i = kNandBlockBad)
     \<and> (status \<noteq> ZX_OK \<longrightarrow> status = ZX_ERR_NOT_FOUND \<and> page s' = page s \<and> block_entry s' = block_entry s)
     \<and> (status = ZX_OK \<longrightarrow> page s' = 0 \<and>
          (\<exists>e. block_entry s' = Some e \<and> e < kBlockListMax
             \<and> unat (block (block_list s' e)) < unat (table_len c)
             \<and> table s' (unat (block (block_list s' e))) = kNandBlockGood))"
proof (induction np c s rule: GetNewBlock.induct)
  case (1 np c s)
  let ?index = "find_least_pe s"
  let ?blk = "block (block_list s ?index)"
  note run = "1.prems"
  show ?case
  proof (cases "?index = kBlockListMax")
    case True
    with run show ?thesis
      by (simp add: GetNewBlock.simps [of np c s])
  next
    case some: False
    then have lt: "?index < kBlockListMax"
      using find_least_pe_valid [of s] by simp
    show ?thesis
    proof (cases "unat ?blk < unat (table_len c)")
      case False
      with some run show ?thesis
        by (simp add: GetNewBlock.simps [of np c s] Let_def)
    next
      case inb: True
      show ?thesis
      proof (cases "table s (unat ?blk) \<noteq> kNandBlockGood")
        case True
        with some inb run have "GetNewBlock np c (invalidate ?index s) = Inr (status, s')"
          by (simp add: GetNewBlock.simps [of np c s] Let_def)
        from "1.IH"(1) [OF refl some refl _ True this] inb show ?thesis
          by (simp add: invalidate_def)
      next
        case good: False
        obtain st s1 where er: "EraseBlock np ?blk s = (st, s1)"
          by (cases "EraseBlock np ?blk s")
        note f1 = table_EraseBlock [OF er] and f2 = block_list_EraseBlock [OF er]
        show ?thesis
        proof (cases "st = ZX_OK")
          case True
          with some inb good er run
          have s': "s' = s1\<lparr>block_entry := Some ?index,
                  block_list := (block_list s1)(?index := (block_list s1 ?index)
                     \<lparr>program_erase_cycles := program_erase_cycles (block_list s1 ?index) + 1\<rparr>),
                  page := 0\<rparr>" and st: "status = ZX_OK"
            by (simp_all add: GetNewBlock.simps [of np c s] Let_def)
          from good inb lt f1 f2 show ?thesis
            unfolding s' st by simp
        next
          case False
          let ?s2 = "invalidate ?index (s1\<lparr>table := (table s1)(unat ?blk := kNandBlockBad)\<rparr>)"
          from False some inb good er run have "GetNewBlock np c ?s2 = Inr (status, s')"
            by (simp add: GetNewBlock.simps [of np c s] Let_def)
          from "1.IH"(2) [OF refl some refl _ _ _ False this] inb good er [symmetric]
          have ih: "generation s' = generation ?s2 \<and> found s' = found ?s2 \<and> oob s' = oob ?s2
             \<and> (\<forall>i. table s' i \<noteq> table ?s2 i \<longrightarrow> table s' i = kNandBlockBad)
             \<and> (status \<noteq> ZX_OK \<longrightarrow> status = ZX_ERR_NOT_FOUND \<and> page s' = page ?s2 \<and> block_entry s' = block_entry ?s2)
             \<and> (status = ZX_OK \<longrightarrow> page s' = 0 \<and>
                  (\<exists>e. block_entry s' = Some e \<and> e < kBlockListMax
                     \<and> unat (block (block_list s' e)) < unat (table_len c)
                     \<and> table s' (unat (block (block_list s' e))) = kNandBlockGood))"
            by simp
          have tbl: "\<And>i. table ?s2 i = (if i = unat ?blk then kNandBlockBad else table s i)"
            using f1 by (simp add: invalidate_def)
          have "\<forall>i. table s' i \<noteq> table s i \<longrightarrow> table s' i = kNandBlockBad"
          proof (intro allI impI)
            fix i assume d: "table s' i \<noteq> table s i"
            show "table s' i = kNandBlockBad"
            proof (cases "table s' i = table ?s2 i")
              case True
              with d tbl [of i] show ?thesis by (simp split: if_splits)
            next
              case False
              with ih show ?thesis by blast
            qed
          qed
          with ih f1 f2 show ?thesis
            by (simp add: invalidate_def)
        qed
      qed
    qed
  qed
qed

lemma num_good_less:
  assumes "j < unat (table_len c)" and "table s j = kNandBlockGood"
    and "table s' j \<noteq> kNandBlockGood"
    and "\<And>i. table s i \<noteq> kNandBlockGood \<Longrightarrow> table s' i \<noteq> kNandBlockGood"
  shows "num_good c s' < num_good c s"
proof -
  let ?A = "{i. i < unat (table_len c) \<and> table s' i = kNandBlockGood}"
  let ?B = "{i. i < unat (table_len c) \<and> table s i = kNandBlockGood}"
  have "?A \<subseteq> ?B" using assms(4) by auto
  moreover have "j \<in> ?B" "j \<notin> ?A" using assms(1-3) by auto
  ultimately have "?A \<subset> ?B" by blast
  moreover have "finite ?B" by simp
  ultimately show ?thesis
    unfolding num_good_def by (rule psubset_card_mono [rotated])
qed

text \<open>
  One turn of the \<^verbatim>\<open>do ... while (!successful)\<close> loop of \<^verbatim>\<open>WriteBadBlockTable\<close>, up to
  the end of the page loop: the result is the flag \<open>successful\<close>, or the status that the
  function returns from inside the loop.
\<close>

definition write_attempt :: "'n nand_protocol \<Rightarrow> Config \<Rightarrow> 32 word \<Rightarrow> bool \<Rightarrow> 'n AmlBadBlock
                               \<Rightarrow> fault + ((zx_status + bool) \<times> 'n AmlBadBlock)" where
  "write_attempt np c bbt_page_count use_new_block s =
     (case host_unusable c bbt_page_count use_new_block s of
        Inl f \<Rightarrow> Inl f
      | Inr need \<Rightarrow>
          (case (if need then GetNewBlock np c s else Inr (ZX_OK, s)) of
             Inl f \<Rightarrow> Inl f
           | Inr (status, s1) \<Rightarrow>
               if status \<noteq> ZX_OK then Inr (Inl status, s1)
               else
                 (case block_entry s1 of
                    None \<Rightarrow> Inl NullDeref
                  | Some e \<Rightarrow>
                      let s2 = s1\<lparr>oob := \<lparr>magic = kBadBlockTableMagic,
                                          oob_program_erase_cycles = program_erase_cycles (block_list s1 e),
                                          oob_generation = generation s1\<rparr>\<rparr>;
                          blk = block (block_list s2 e)
                      in (case write_pages np c blk (unat bbt_page_count) 0 s2 of
                            Inl f \<Rightarrow> Inl f
                          | Inr (successful, s3) \<Rightarrow> Inr (Inr successful, s3)))))"

lemma write_attempt_fields:
  assumes "write_attempt np c cnt use_new s = Inr (r, s')"
  shows "generation s' = generation s \<and> found s' = found s
     \<and> (\<forall>i. table s' i \<noteq> table s i \<longrightarrow> table s' i = kNandBlockBad)
     \<and> (\<forall>st. r = Inl st \<longrightarrow> st = ZX_ERR_NOT_FOUND)
     \<and> (r = Inr False \<longrightarrow> (\<exists>j < unat (table_len c). table s j = kNandBlockGood \<and> table s' j = kNandBlockBad))
     \<and> (r = Inr True \<longrightarrow> oob_generation (oob s') = generation s \<and> magic (oob s') = kBadBlockTableMagic
           \<and> (\<exists>e. block_entry s' = Some e
                  \<and> oob_program_erase_cycles (oob s') = program_erase_cycles (block_list s' e)
                  \<and> unat (block (block_list s' e)) < unat (table_len c)
                  \<and> table s' (unat (block (block_list s' e))) = kNandBlockGood))"
proof -
  from assms obtain need where need: "host_unusable c cnt use_new s = Inr need"
    by (auto simp: write_attempt_def split: sum.splits)
  let ?g = "if need then GetNewBlock np c s else Inr (ZX_OK, s)"
  from assms need obtain status s1 where g: "?g = Inr (status, s1)"
    by (auto simp: write_attempt_def split: sum.splits)
  have g_fields: "generation s1 = generation s \<and> found s1 = found s
     \<and> (\<forall>i. table s1 i \<noteq> table s i \<longrightarrow> table s1 i = kNandBlockBad)
     \<and> (status \<noteq> ZX_OK \<longrightarrow> status = ZX_ERR_NOT_FOUND)"
    using g GetNewBlock_fields [of np c s status s1] by (auto split: if_splits)
  show ?thesis
  proof (cases "status = ZX_OK")
    case False
    with assms need g have "r = Inl status" "s' = s1"
      by (auto simp: write_attempt_def split: sum.splits)
    with False g_fields show ?thesis by auto
  next
    case ok: True
    have host: "\<exists>e. block_entry s1 = Some e
        \<and> unat (block (block_list s1 e)) < unat (table_len c)
        \<and> table s1 (unat (block (block_list s1 e))) = kNandBlockGood"
    proof (cases need)
      case True
      with g ok GetNewBlock_fields [of np c s status s1] show ?thesis by auto
    next
      case False
      with g have "s1 = s" by simp
      with False need show ?thesis
        by (auto simp: host_unusable_def Let_def split: if_splits option.splits)
    qed
    then obtain e where e: "block_entry s1 = Some e"
        "unat (block (block_list s1 e)) < unat (table_len c)"
        "table s1 (unat (block (block_list s1 e))) = kNandBlockGood"
      by blast
    let ?s2 = "s1\<lparr>oob := \<lparr>magic = kBadBlockTableMagic,
                          oob_program_erase_cycles = program_erase_cycles (block_list s1 e),
                          oob_generation = generation s1\<rparr>\<rparr>"
    let ?blk = "block (block_list s1 e)"
    from assms need g ok e obtain successful where
      w: "write_pages np c ?blk (unat cnt) 0 ?s2 = Inr (successful, s')" and r: "r = Inr successful"
      by (auto simp: write_attempt_def Let_def split: sum.splits)
    note wf = write_pages_fields [OF w]
    show ?thesis
    proof (cases successful)
      case True
      with wf r e g_fields show ?thesis by auto
    next
      case False
      with wf have t': "table s' = (table s1)(unat ?blk := kNandBlockBad)" by simp
      have "table s (unat ?blk) = kNandBlockGood"
        using g_fields e(3) good_not_bad by metis
      with False wf r e g_fields t' show ?thesis
        by (auto simp: good_not_bad)
    qed
  qed
qed

text \<open>
  The \<^verbatim>\<open>do ... while (!successful)\<close> loop. A turn that fails has marked a block bad that
  was good when the turn began, so the number of good blocks decreases.
\<close>

function write_loop :: "'n nand_protocol \<Rightarrow> Config \<Rightarrow> 32 word \<Rightarrow> bool \<Rightarrow> 'n AmlBadBlock
                          \<Rightarrow> fault + (zx_status \<times> 'n AmlBadBlock)" where
  "write_loop np c bbt_page_count use_new_block s =
     (case write_attempt np c bbt_page_count use_new_block s of
        Inl f \<Rightarrow> Inl f
      | Inr (Inl status, s1) \<Rightarrow> Inr (status, s1)
      | Inr (Inr successful, s1) \<Rightarrow>
          if \<not> successful then write_loop np c bbt_page_count False s1
          else Inr (ZX_OK, s1))"
  by pat_completeness auto
termination
proof (relation "measure (\<lambda>(np, c, cnt, u, s). num_good c s)", goal_cases)
  case 1
  show ?case by simp
next
  case (2 np c cnt use_new s r x s1 successful)
  then have wa: "write_attempt np c cnt use_new s = Inr (Inr False, s1)"
    by simp
  from write_attempt_fields [OF wa] obtain j where
    j: "j < unat (table_len c)" "table s j = kNandBlockGood" "table s1 j = kNandBlockBad"
    and mono: "\<forall>i. table s1 i \<noteq> table s i \<longrightarrow> table s1 i = kNandBlockBad"
    by auto
  have "num_good c s1 < num_good c s"
  proof (rule num_good_less [OF j(1) j(2)])
    show "table s1 j \<noteq> kNandBlockGood" using j(3) good_not_bad by simp
  next
    fix i assume "table s i \<noteq> kNandBlockGood"
    with mono show "table s1 i \<noteq> kNandBlockGood"
      using good_not_bad by metis
  qed
  then show ?case by simp
qed

declare write_loop.simps [simp del]

lemma write_loop_fields:
  "write_loop np c cnt u s = Inr (status, s') \<Longrightarrow>
     generation s' = generation s \<and> found s' = found s
     \<and> (\<forall>i. table s' i \<noteq> table s i \<longrightarrow> table s' i = kNandBlockBad)
     \<and> (status \<noteq> ZX_OK \<longrightarrow> status = ZX_ERR_NOT_FOUND)
     \<and> (status = ZX_OK \<longrightarrow> oob_generation (oob s') = generation s \<and> magic (oob s') = kBadBlockTableMagic
           \<and> (\<exists>e. block_entry s' = Some e
                  \<and> oob_program_erase_cycles (oob s') = program_erase_cycles (block_list s' e)
                  \<and> unat (block (block_list s' e)) < unat (table_len c)
                  \<and> table s' (unat (block (block_list s' e))) = kNandBlockGood))"
proof (induction np c cnt u s rule: write_loop.induct)
  case (1 np c cnt u s)
  note run = "1.prems"
  from run obtain r s1 where wa: "write_attempt np c cnt u s = Inr (r, s1)"
    by (auto simp: write_loop.simps [of np c cnt u s] split: sum.splits)
  note f = write_attempt_fields [OF wa]
  show ?case
  proof (cases r)
    case (Inl st)
    with run wa have "status = st" "s' = s1"
      by (simp_all add: write_loop.simps [of np c cnt u s])
    with f Inl show ?thesis by auto
  next
    case (Inr successful)
    show ?thesis
    proof (cases successful)
      case True
      with run wa Inr have "status = ZX_OK" "s' = s1"
        by (simp_all add: write_loop.simps [of np c cnt u s])
      with f Inr True show ?thesis by auto
    next
      case False
      with run wa Inr have rec: "write_loop np c cnt False s1 = Inr (status, s')"
        by (simp add: write_loop.simps [of np c cnt u s])
      have ih: "generation s' = generation s1 \<and> found s' = found s1
     \<and> (\<forall>i. table s' i \<noteq> table s1 i \<longrightarrow> table s' i = kNandBlockBad)
     \<and> (status \<noteq> ZX_OK \<longrightarrow> status = ZX_ERR_NOT_FOUND)
     \<and> (status = ZX_OK \<longrightarrow> oob_generation (oob s') = generation s1 \<and> magic (oob s') = kBadBlockTableMagic
           \<and> (\<exists>e. block_entry s' = Some e
                  \<and> oob_program_erase_cycles (oob s') = program_erase_cycles (block_list s' e)
                  \<and> unat (block (block_list s' e)) < unat (table_len c)
                  \<and> table s' (unat (block (block_list s' e))) = kNandBlockGood))"
        by (rule "1.IH" [OF wa refl Inr False rec])
      have "\<forall>i. table s' i \<noteq> table s i \<longrightarrow> table s' i = kNandBlockBad"
      proof (intro allI impI)
        fix i assume d: "table s' i \<noteq> table s i"
        show "table s' i = kNandBlockBad"
        proof (cases "table s' i = table s1 i")
          case True
          with d f show ?thesis by metis
        next
          case False
          with ih show ?thesis by blast
        qed
      qed
      with ih f show ?thesis by simp
    qed
  qed
qed

definition WriteBadBlockTable :: "'n nand_protocol \<Rightarrow> Config \<Rightarrow> bool \<Rightarrow> 'n AmlBadBlock
                                    \<Rightarrow> fault + (zx_status \<times> 'n AmlBadBlock)" where
  "WriteBadBlockTable np c use_new_block s =
     (if page_size c = 0 then Inl DivByZero
      else
        let bbt_page_count = (table_len c + page_size c - 1) div page_size c in
        case write_loop np c bbt_page_count use_new_block s of
          Inl f \<Rightarrow> Inl f
        | Inr (status, s1) \<Rightarrow>
            if status \<noteq> ZX_OK then Inr (status, s1)
            else Inr (ZX_OK, s1\<lparr>page := page s1 + bbt_page_count, generation := generation s1 + 1\<rparr>))"

subsection \<open>Discovery\<close>

text \<open>
  The probe of one reserved block: up to \<open>n\<close> reads, \<open>page_stride\<close> pages apart, until one
  succeeds.
\<close>

fun probe_block :: "'n nand_protocol \<Rightarrow> nat \<Rightarrow> 32 word \<Rightarrow> 32 word \<Rightarrow> zx_status \<Rightarrow> 'n AmlBadBlock
                      \<Rightarrow> zx_status \<times> 'n AmlBadBlock" where
  "probe_block np 0 nand_page page_stride status s = (status, s)"
| "probe_block np (Suc n) nand_page page_stride status s =
     (if status \<noteq> ZX_OK then
        (case ReadPage np nand_page 0 s of
           (status', s1) \<Rightarrow> probe_block np n (nand_page + page_stride) page_stride status' s1)
      else (status, s))"

text \<open>
  The loop over the reserved range, \<^verbatim>\<open>for (; block <= table_end_block; block++)\<close>, on 32-bit
  block numbers: with \<open>table_end_block = 0xFFFFFFFF\<close> the condition never fails.
\<close>

partial_function (option) scan_blocks :: "'n nand_protocol \<Rightarrow> Config \<Rightarrow> 32 word \<Rightarrow> 32 word \<Rightarrow> nat
     \<Rightarrow> 'n AmlBadBlock \<Rightarrow> (fault + 'n AmlBadBlock) option" where
  "scan_blocks np c page_stride blk valid_blocks s =
     (if blk \<le> table_end_block c then
        (case probe_block np 6 (blk * pages_per_block c) page_stride ZX_ERR_INTERNAL s of
           (status, s1) \<Rightarrow>
             if status \<noteq> ZX_OK then scan_blocks np c page_stride (blk + 1) valid_blocks s1
             else if \<not> valid_blocks < kBlockListMax then Some (Inl OutOfBounds)
             else
               let s2 = s1\<lparr>block_list := (block_list s1)(valid_blocks :=
                             \<lparr>block = blk,
                              program_erase_cycles = oob_program_erase_cycles (oob s1),
                              valid = True\<rparr>)\<rparr>;
                   s3 = (if magic (oob s2) = kBadBlockTableMagic \<and> oob_generation (oob s2) \<ge> generation s2
                         then s2\<lparr>block_entry := Some valid_blocks, generation := oob_generation (oob s2)\<rparr>
                         else s2)
               in scan_blocks np c page_stride (blk + 1) (valid_blocks + 1) s3)
      else Some (Inr s))"

text \<open>The pages of one stride window, read until one fails or lacks the magic.\<close>

fun read_stride :: "'n nand_protocol \<Rightarrow> 32 word \<Rightarrow> nat \<Rightarrow> 32 word \<Rightarrow> 'n AmlBadBlock
                      \<Rightarrow> zx_status \<times> 'n AmlBadBlock" where
  "read_stride np base 0 i s = (ZX_OK, s)"
| "read_stride np base (Suc n) i s =
     (case ReadPage np (base + i) (ucast i) s of
        (status, s1) \<Rightarrow>
          if status \<noteq> ZX_OK \<or> magic (oob s1) \<noteq> kBadBlockTableMagic then (status, s1)
          else read_stride np base n (i + 1) s1)"

partial_function (option) scan_entries :: "'n nand_protocol \<Rightarrow> Config \<Rightarrow> 32 word \<Rightarrow> 32 word \<Rightarrow> 32 word
     \<Rightarrow> bool \<Rightarrow> bool \<Rightarrow> 'n AmlBadBlock \<Rightarrow> (bool \<times> bool \<times> 'n AmlBadBlock) option" where
  "scan_entries np c page_stride blk pg found_one latest_entry_bad s =
     (if pg + page_stride \<le> pages_per_block c then
        (case read_stride np (blk * pages_per_block c + pg) (unat page_stride) 0 s of
           (status, s1) \<Rightarrow>
             if status \<noteq> ZX_OK then
               scan_entries np c page_stride blk (pg + page_stride) found_one True s1
             else if magic (oob s1) \<noteq> kBadBlockTableMagic then
               Some (found_one, latest_entry_bad, s1)
             else
               scan_entries np c page_stride blk (pg + page_stride) True False
                 (s1\<lparr>page := pg, generation := oob_generation (oob s1) + 1\<rparr>))
      else Some (found_one, latest_entry_bad, s))"

text \<open>The re-read of the latest complete window; \<open>Some status\<close> is the early return.\<close>

fun reread :: "'n nand_protocol \<Rightarrow> 32 word \<Rightarrow> nat \<Rightarrow> 32 word \<Rightarrow> 'n AmlBadBlock
                 \<Rightarrow> zx_status option \<times> 'n AmlBadBlock" where
  "reread np base 0 i s = (None, s)"
| "reread np base (Suc n) i s =
     (case ReadPage np (base + i) (ucast i) s of
        (status, s1) \<Rightarrow>
          if status \<noteq> ZX_OK \<or> magic (oob s1) \<noteq> kBadBlockTableMagic then (Some status, s1)
          else reread np base n (i + 1) s1)"

text \<open>
  \<^verbatim>\<open>FindBadBlockTable\<close>. The checks come in the order of the source; \<open>sizeof(OobMetadata)\<close>
  is 8. \<^verbatim>\<open>ZX_DEBUG_ASSERT(page_stride > 0)\<close> is compiled out of release builds and has no
  counterpart here: with \<open>page_stride = 0\<close> the scan inside the host does not advance.
\<close>

definition FindBadBlockTable :: "'n nand_protocol \<Rightarrow> Config \<Rightarrow> 'n AmlBadBlock
                                   \<Rightarrow> (fault + (zx_status \<times> 'n AmlBadBlock)) option" where
  "FindBadBlockTable np c s =
     (if sizeof_OobMetadata > oob_size c then Some (Inr (ZX_ERR_NOT_SUPPORTED, s))
      else
        let blocks = table_end_block c - table_start_block c in
        if blocks = 0 \<or> unat blocks > kBlockListMax then Some (Inr (ZX_ERR_NOT_SUPPORTED, s))
        else if page_size c = 0 then Some (Inl DivByZero)
        else
          let page_stride = (table_len c + page_size c - 1) div page_size c in
          case scan_blocks np c page_stride (table_start_block c) 0 (s\<lparr>block_entry := None\<rparr>) of
            None \<Rightarrow> None
          | Some (Inl f) \<Rightarrow> Some (Inl f)
          | Some (Inr s1) \<Rightarrow>
              (case block_entry s1 of
                 None \<Rightarrow> Some (Inr (ZX_ERR_INTERNAL, s1))
               | Some e \<Rightarrow>
                   let blk = block (block_list s1 e) in
                   case scan_entries np c page_stride blk 0 False True s1 of
                     None \<Rightarrow> None
                   | Some (found_one, latest_entry_bad, s2) \<Rightarrow>
                       if \<not> found_one then Some (Inr (ZX_ERR_NOT_FOUND, s2))
                       else
                         (case reread np (blk * pages_per_block c + page s2) (unat page_stride) 0 s2 of
                            (Some status, s3) \<Rightarrow> Some (Inr (status, s3))
                          | (None, s3) \<Rightarrow>
                              if latest_entry_bad then
                                (case WriteBadBlockTable np c True s3 of
                                   Inl f \<Rightarrow> Some (Inl f)
                                 | Inr (status, s4) \<Rightarrow>
                                     if status \<noteq> ZX_OK then Some (Inr (ZX_ERR_NOT_SUPPORTED, s4))
                                     else Some (Inr (ZX_OK, s4\<lparr>found := True\<rparr>)))
                              else
                                Some (Inr (ZX_OK, s3\<lparr>page := page s3 + page_stride, found := True\<rparr>)))))"

subsection \<open>The query and mutate entry points\<close>

text \<open>
  The prologue of every entry point: \<^verbatim>\<open>if (!found_) { status = FindBadBlockTable(); ... }\<close>.
\<close>

definition ensure_found :: "'n nand_protocol \<Rightarrow> Config \<Rightarrow> 'n AmlBadBlock
                              \<Rightarrow> (fault + (zx_status \<times> 'n AmlBadBlock)) option" where
  "ensure_found np c s = (if \<not> found s then FindBadBlockTable np c s else Some (Inr (ZX_OK, s)))"

text \<open>
  The two loops of \<^verbatim>\<open>GetBadBlockList\<close> over \<^verbatim>\<open>block = first_block; block < last_block\<close>:
  the first counts, the second fills the array, here the list built in order.
\<close>

lemma unat_succ_less: "(a :: 32 word) < b \<Longrightarrow> unat (a + 1) = unat a + 1"
  by unat_arith

function count_bad :: "(nat \<Rightarrow> BlockStatus) \<Rightarrow> 32 word \<Rightarrow> 32 word \<Rightarrow> nat \<Rightarrow> nat" where
  "count_bad tbl blk last_block bad_block_count =
     (if blk < last_block then
        count_bad tbl (blk + 1) last_block
          (if tbl (unat blk) \<noteq> kNandBlockGood then bad_block_count + 1 else bad_block_count)
      else bad_block_count)"
  by pat_completeness auto
termination
  by (relation "measure (\<lambda>(tbl, blk, last_block, n). unat last_block - unat blk)")
     (auto simp: unat_succ_less word_less_nat_alt)

function copy_bad :: "(nat \<Rightarrow> BlockStatus) \<Rightarrow> 32 word \<Rightarrow> 32 word \<Rightarrow> 32 word list \<Rightarrow> 32 word list" where
  "copy_bad tbl blk last_block bad_blocks =
     (if blk < last_block then
        copy_bad tbl (blk + 1) last_block
          (if tbl (unat blk) \<noteq> kNandBlockGood then bad_blocks @ [blk] else bad_blocks)
      else bad_blocks)"
  by pat_completeness auto
termination
  by (relation "measure (\<lambda>(tbl, blk, last_block, n). unat last_block - unat blk)")
     (auto simp: unat_succ_less word_less_nat_alt)

declare count_bad.simps [simp del] copy_bad.simps [simp del]

text \<open>
  \<^verbatim>\<open>fbl::Array<uint32_t>\<close> is the list of its elements; the null array, which is the only
  one of size 0 that this code builds, is the empty list. \<open>alloc_ok\<close> says whether the
  allocation of the result succeeds. On an early error the caller's array is untouched.
\<close>

definition GetBadBlockList :: "'n nand_protocol \<Rightarrow> Config \<Rightarrow> bool \<Rightarrow> 32 word list \<Rightarrow> 32 word \<Rightarrow> 32 word
     \<Rightarrow> 'n AmlBadBlock \<Rightarrow> (fault + (zx_status \<times> 32 word list \<times> 'n AmlBadBlock)) option" where
  "GetBadBlockList np c alloc_ok bad_blocks first_block last_block s =
     (case ensure_found np c s of
        None \<Rightarrow> None
      | Some (Inl f) \<Rightarrow> Some (Inl f)
      | Some (Inr (status, s1)) \<Rightarrow>
          if status \<noteq> ZX_OK then Some (Inr (status, bad_blocks, s1))
          else if first_block \<ge> table_len c \<or> last_block > table_len c then
            Some (Inr (ZX_ERR_INVALID_ARGS, bad_blocks, s1))
          else
            let bad_block_count = count_bad (table s1) first_block last_block 0 in
            if bad_block_count = 0 then Some (Inr (ZX_OK, [], s1))
            else if \<not> alloc_ok then Some (Inr (ZX_ERR_NO_MEMORY, [], s1))
            else Some (Inr (ZX_OK, copy_bad (table s1) first_block last_block [], s1)))"

definition IsBlockBad :: "'n nand_protocol \<Rightarrow> Config \<Rightarrow> 32 word \<Rightarrow> 'n AmlBadBlock
     \<Rightarrow> (fault + (zx_status \<times> bool option \<times> 'n AmlBadBlock)) option" where
  "IsBlockBad np c blk s =
     (case ensure_found np c s of
        None \<Rightarrow> None
      | Some (Inl f) \<Rightarrow> Some (Inl f)
      | Some (Inr (status, s1)) \<Rightarrow>
          if status \<noteq> ZX_OK then Some (Inr (status, None, s1))
          else if blk > table_len c then Some (Inr (ZX_ERR_OUT_OF_RANGE, None, s1))
          else if \<not> unat blk < unat (table_len c) then Some (Inl OutOfBounds)
          else Some (Inr (ZX_OK, Some (table s1 (unat blk) \<noteq> kNandBlockGood), s1)))"

definition MarkBlockBad :: "'n nand_protocol \<Rightarrow> Config \<Rightarrow> 32 word \<Rightarrow> 'n AmlBadBlock
     \<Rightarrow> (fault + (zx_status \<times> 'n AmlBadBlock)) option" where
  "MarkBlockBad np c blk s =
     (case ensure_found np c s of
        None \<Rightarrow> None
      | Some (Inl f) \<Rightarrow> Some (Inl f)
      | Some (Inr (status, s1)) \<Rightarrow>
          if status \<noteq> ZX_OK then Some (Inr (status, s1))
          else if blk > table_len c then Some (Inr (ZX_ERR_OUT_OF_RANGE, s1))
          else if \<not> unat blk < unat (table_len c) then Some (Inl OutOfBounds)
          else if table s1 (unat blk) \<noteq> kNandBlockGood then Some (Inr (ZX_OK, s1))
          else Some (WriteBadBlockTable np c False (s1\<lparr>table := (table s1)(unat blk := kNandBlockBad)\<rparr>)))"

subsection \<open>The partition device\<close>

text \<open>
  \<^verbatim>\<open>NandPartDevice\<close>: \<open>erase_block_start\<close> and the partition's \<^verbatim>\<open>nand_info_.num_blocks\<close> are
  constant; \<open>bad_block\<close> is the core the device refers to and \<open>bad_block_list\<close> its cached
  list, empty while the array is null.
\<close>

record Partition =
  erase_block_start :: "32 word"
  part_num_blocks :: "32 word"

record 'n NandPartDevice =
  bad_block :: "'n AmlBadBlock"
  bad_block_list :: "32 word list"

text \<open>
  The fetch that opens the three entry points:
  \<^verbatim>\<open>if (!bad_block_list_) { status = bad_block_->GetBadBlockList(...); ... }\<close>.
\<close>

definition fetch_bad_block_list :: "'n nand_protocol \<Rightarrow> Config \<Rightarrow> Partition \<Rightarrow> bool \<Rightarrow> 'n NandPartDevice
     \<Rightarrow> (fault + (zx_status \<times> 'n NandPartDevice)) option" where
  "fetch_bad_block_list np c pt alloc_ok d =
     (if bad_block_list d = [] then
        (case GetBadBlockList np c alloc_ok (bad_block_list d) (erase_block_start pt)
                (erase_block_start pt + part_num_blocks pt) (bad_block d) of
           None \<Rightarrow> None
         | Some (Inl f) \<Rightarrow> Some (Inl f)
         | Some (Inr (status, l, s1)) \<Rightarrow> Some (Inr (status, d\<lparr>bad_block := s1, bad_block_list := l\<rparr>)))
      else Some (Inr (ZX_OK, d)))"

definition NandPart_IsBlockBad :: "'n nand_protocol \<Rightarrow> Config \<Rightarrow> Partition \<Rightarrow> bool \<Rightarrow> 32 word \<Rightarrow> 'n NandPartDevice
     \<Rightarrow> (fault + (zx_status \<times> bool option \<times> 'n NandPartDevice)) option" where
  "NandPart_IsBlockBad np c pt alloc_ok blk d =
     (if blk \<ge> part_num_blocks pt then Some (Inr (ZX_ERR_OUT_OF_RANGE, None, d))
      else
        case fetch_bad_block_list np c pt alloc_ok d of
          None \<Rightarrow> None
        | Some (Inl f) \<Rightarrow> Some (Inl f)
        | Some (Inr (status, d1)) \<Rightarrow>
            if status \<noteq> ZX_OK then Some (Inr (status, None, d1))
            else Some (Inr (ZX_OK, Some (blk \<in> set (bad_block_list d1)), d1)))"

text \<open>
  \<open>alloc_ok\<close> is the allocation inside the fetch, \<open>alloc_ok'\<close> the allocation of the
  longer cached list.
\<close>

definition NandPart_MarkBlockBad :: "'n nand_protocol \<Rightarrow> Config \<Rightarrow> Partition \<Rightarrow> bool \<Rightarrow> bool \<Rightarrow> 32 word
     \<Rightarrow> 'n NandPartDevice \<Rightarrow> (fault + (zx_status \<times> 'n NandPartDevice)) option" where
  "NandPart_MarkBlockBad np c pt alloc_ok alloc_ok' blk d =
     (if blk \<ge> part_num_blocks pt then Some (Inr (ZX_ERR_OUT_OF_RANGE, d))
      else
        case fetch_bad_block_list np c pt alloc_ok d of
          None \<Rightarrow> None
        | Some (Inl f) \<Rightarrow> Some (Inl f)
        | Some (Inr (status, d1)) \<Rightarrow>
            if status \<noteq> ZX_OK then Some (Inr (status, d1))
            else if \<not> alloc_ok' then Some (Inr (ZX_ERR_NO_MEMORY, d1))
            else
              let d2 = d1\<lparr>bad_block_list := bad_block_list d1 @ [blk]\<rparr> in
              case MarkBlockBad np c (blk + erase_block_start pt) (bad_block d2) of
                None \<Rightarrow> None
              | Some (Inl f) \<Rightarrow> Some (Inl f)
              | Some (Inr (status', s1)) \<Rightarrow> Some (Inr (status', d2\<lparr>bad_block := s1\<rparr>)))"

text \<open>
  \<^verbatim>\<open>GetBadBlockList2\<close>: \<open>out_null\<close> says that the caller's buffer is \<^verbatim>\<open>NULL\<close>, and
  \<open>bad_block_list_len\<close> is the number of entries it has room for. The results are
  \<^verbatim>\<open>*bad_block_count\<close> and the entries copied to the buffer (\<open>None\<close> where they are not
  written). The copy takes the whole cached list whatever \<open>bad_block_list_len\<close> is, so
  a buffer that is too short is overrun.
\<close>

definition GetBadBlockList2 :: "'n nand_protocol \<Rightarrow> Config \<Rightarrow> Partition \<Rightarrow> bool \<Rightarrow> bool \<Rightarrow> 32 word
     \<Rightarrow> 'n NandPartDevice
     \<Rightarrow> (fault + (zx_status \<times> nat option \<times> 32 word list option \<times> 'n NandPartDevice)) option" where
  "GetBadBlockList2 np c pt alloc_ok out_null bad_block_list_len d =
     (case fetch_bad_block_list np c pt alloc_ok d of
        None \<Rightarrow> None
      | Some (Inl f) \<Rightarrow> Some (Inl f)
      | Some (Inr (status, d1)) \<Rightarrow>
          if status \<noteq> ZX_OK then Some (Inr (status, None, None, d1))
          else
            let bad_block_count = length (bad_block_list d1) in
            if bad_block_list_len = 0 \<or> bad_block_count = 0 then
              Some (Inr (ZX_OK, Some bad_block_count, None, d1))
            else if out_null then
              Some (Inr (ZX_ERR_INVALID_ARGS, Some bad_block_count, None, d1))
            else if bad_block_count > unat bad_block_list_len then Some (Inl OutOfBounds)
            else Some (Inr (ZX_OK, Some bad_block_count, Some (bad_block_list d1), d1)))"

declare scan_blocks.simps [code] scan_entries.simps [code]

subsection \<open>A reference NAND for concrete runs\<close>

text \<open>
  A flash that keeps the pages written since their block was erased, newest first. A
  page never written reads as erased (all bits set). Erases of the blocks in \<open>bad_erase\<close>
  and writes to the pages in \<open>bad_write\<close> fail; every read succeeds.
\<close>

type_synonym sim_flash = "(32 word \<times> OobMetadata \<times> (nat \<Rightarrow> BlockStatus)) list"

definition erased_oob :: OobMetadata where
  "erased_oob = \<lparr>magic = 0xFFFFFFFF, oob_program_erase_cycles = 0xFFFF, oob_generation = 0xFFFF\<rparr>"

definition sim_nand :: "32 word list \<Rightarrow> 32 word list \<Rightarrow> 32 word \<Rightarrow> sim_flash nand_protocol" where
  "sim_nand bad_erase bad_write ppb =
     \<lparr>queue_erase = (\<lambda>blk fl.
         if blk \<in> set bad_erase then (ZX_ERR_IO, fl)
         else (ZX_OK, filter (\<lambda>e. fst e div ppb \<noteq> blk) fl)),
      queue_write = (\<lambda>pg off tbl ob fl.
         if pg \<in> set bad_write then (ZX_ERR_IO, fl) else (ZX_OK, (pg, ob, tbl) # fl)),
      queue_read = (\<lambda>pg off tbl ob fl.
         case map_of fl pg of
           None \<Rightarrow> (ZX_OK, tbl, erased_oob, fl)
         | Some (ob', tbl') \<Rightarrow> (ZX_OK, tbl', ob', fl))\<rparr>"

definition sim_config :: "32 word \<Rightarrow> 32 word \<Rightarrow> Config" where
  "sim_config first_reserved last_reserved =
     \<lparr>page_size = 2048, pages_per_block = 64, num_blocks = 64, oob_size = 8,
      table_start_block = first_reserved, table_end_block = last_reserved\<rparr>"

text \<open>
  Modelled from the spec: the initial values of the members are set in the header
  \<^verbatim>\<open>aml-bad-block.h\<close>, which is not among the sources. The spec has \<open>T\<close> all \<open>GOOD\<close>,
  \<open>G = 0\<close>, no reserved entry and no host before discovery. \<open>fresh\<close> is that state on
  an empty flash; the other states are states after a discovery, with block 60 the host.
\<close>

definition fresh :: "sim_flash AmlBadBlock" where
  "fresh = \<lparr>nand = [], table = (\<lambda>_. kNandBlockGood), oob = erased_oob,
            block_list = (\<lambda>_. \<lparr>block = 0, program_erase_cycles = 0, valid = False\<rparr>),
            block_entry = None, page = 0, generation = 0, found = False\<rparr>"

definition hosted :: "sim_flash AmlBadBlock" where
  "hosted = fresh\<lparr>block_list := (block_list fresh)
       (0 := \<lparr>block = 60, program_erase_cycles = 1, valid = True\<rparr>,
        1 := \<lparr>block = 61, program_erase_cycles = 0, valid = True\<rparr>),
      block_entry := Some 0, found := True, generation := 5\<rparr>"

definition host_full :: "sim_flash AmlBadBlock" where
  "host_full = hosted\<lparr>page := 64\<rparr>"

definition last_generation :: "sim_flash AmlBadBlock" where
  "last_generation = hosted\<lparr>generation := 0xFFFF\<rparr>"

definition marked :: "sim_flash AmlBadBlock" where
  "marked = hosted\<lparr>table := (table hosted)(5 := kNandBlockBad, 6 := kNandBlockBad)\<rparr>"

definition erased_spare :: "sim_flash AmlBadBlock" where
  "erased_spare = host_full\<lparr>block_list := (block_list host_full)
       (1 := \<lparr>block = 61, program_erase_cycles = 0xFFFF, valid = True\<rparr>)\<rparr>"

text \<open>
  A partition over the device blocks 2 to 5, on a core whose table has the device block 3
  bad; the partition's cached list is still null.
\<close>

definition part_2_5 :: Partition where
  "part_2_5 = \<lparr>erase_block_start = 2, part_num_blocks = 4\<rparr>"

definition part_dev :: "sim_flash NandPartDevice" where
  "part_dev = \<lparr>bad_block = hosted\<lparr>table := (table hosted)(3 := kNandBlockBad)\<rparr>, bad_block_list = []\<rparr>"

text \<open>What a run returned, and the state it left (the state before, when it left none).\<close>

definition outcome :: "(fault + (zx_status \<times> 'a)) option \<Rightarrow> (fault + zx_status) option" where
  "outcome r = (case r of None \<Rightarrow> None | Some (Inl f) \<Rightarrow> Some (Inl f) | Some (Inr (status, _)) \<Rightarrow> Some (Inr status))"

definition final :: "'s \<Rightarrow> (fault + (zx_status \<times> 's)) option \<Rightarrow> 's" where
  "final s r = (case r of Some (Inr (_, s')) \<Rightarrow> s' | _ \<Rightarrow> s)"

definition answer :: "(fault + (zx_status \<times> bool option \<times> 'a)) option \<Rightarrow> bool option" where
  "answer r = (case r of Some (Inr (_, b, _)) \<Rightarrow> b | _ \<Rightarrow> None)"

text \<open>What the reference flash holds: the pages, and the generation and the status of block
  \<open>b\<close> that each of them carries.\<close>

definition flash_pages :: "sim_flash \<Rightarrow> 32 word list" where
  "flash_pages fl = map fst fl"

definition flash_generations :: "sim_flash \<Rightarrow> 16 word list" where
  "flash_generations fl = map (\<lambda>e. oob_generation (fst (snd e))) fl"

definition flash_status :: "sim_flash \<Rightarrow> nat \<Rightarrow> BlockStatus list" where
  "flash_status fl b = map (\<lambda>e. snd (snd e) b) fl"

subsection \<open>A virgin device\<close>

text \<open>
  The device is virgin for the reserved range, along the set \<open>V\<close> of controller states:
  in every state of \<open>V\<close> the first page of every reserved block reads successfully, without
  the magic, and leaves the controller in \<open>V\<close>.
\<close>

definition unwritten :: "sim_flash \<Rightarrow> bool" where
  "unwritten fl = (fl = [])"

definition virgin :: "'n nand_protocol \<Rightarrow> Config \<Rightarrow> ('n \<Rightarrow> bool) \<Rightarrow> bool" where
  "virgin np c V =
     (\<forall>blk tbl ob n. table_start_block c \<le> blk \<and> blk \<le> table_end_block c \<and> V n \<longrightarrow>
        (case queue_read np (blk * pages_per_block c) 0 tbl ob n of
           (status, tbl', ob', n') \<Rightarrow> status = ZX_OK \<and> magic ob' \<noteq> kBadBlockTableMagic \<and> V n'))"

subsection \<open>The specification's view of the bad-block list\<close>

text \<open>
  The block numbers \<open>b\<close> of the half-open range \<open>[first_block, last_block)\<close> with
  \<open>T[b] \<noteq> GOOD\<close>, in increasing order.
\<close>

definition bad_in_range :: "(nat \<Rightarrow> BlockStatus) \<Rightarrow> 32 word \<Rightarrow> 32 word \<Rightarrow> 32 word list" where
  "bad_in_range tbl first_block last_block =
     filter (\<lambda>b. tbl (unat b) \<noteq> kNandBlockGood) (map of_nat [unat first_block..<unat last_block])"

subsection \<open>The record that a successful write leaves\<close>

text \<open>
  \<open>stride_of\<close> is the number of pages of one record. \<open>writes_ok\<close> is the controller
  state after \<open>k\<close> page writes of the given table and OOB header, at the pages
  \<open>base + i\<close> onwards, when every one of them succeeds. \<open>record_on_flash\<close> says that the
  controller state of \<open>s\<close> is what a complete stride of successful page writes leaves, of
  the table and the OOB header that \<open>s\<close> holds, at the pages of the host just below
  its cursor \<open>page\<close>.
\<close>

definition stride_of :: "Config \<Rightarrow> 32 word" where
  "stride_of c = (table_len c + page_size c - 1) div page_size c"

fun writes_ok :: "'n nand_protocol \<Rightarrow> 32 word \<Rightarrow> nat \<Rightarrow> 32 word \<Rightarrow> (nat \<Rightarrow> BlockStatus) \<Rightarrow> OobMetadata
                    \<Rightarrow> 'n \<Rightarrow> 'n option" where
  "writes_ok np base 0 i tbl ob n = Some n"
| "writes_ok np base (Suc k) i tbl ob n =
     (case queue_write np (base + i) (ucast i) tbl ob n of
        (status, n') \<Rightarrow> if status = ZX_OK then writes_ok np base k (i + 1) tbl ob n' else None)"

definition record_on_flash :: "'n nand_protocol \<Rightarrow> Config \<Rightarrow> 'n AmlBadBlock \<Rightarrow> bool" where
  "record_on_flash np c s =
     (\<exists>e n0. block_entry s = Some e
        \<and> writes_ok np (block (block_list s e) * pages_per_block c + (page s - stride_of c))
             (unat (stride_of c)) 0 (table s) (oob s) n0 = Some (nand s))"

section \<open>Properties\<close>

lemmas sim_defs = sim_nand_def sim_config_def fresh_def hosted_def erased_oob_def
  host_full_def last_generation_def marked_def
lemmas const_defs = kNandBlockGood_def kNandBlockBad_def kBlockListMax_def sizeof_OobMetadata_def
  kBadBlockTableMagic_def table_len_def
lemmas io_defs = EraseBlock_def WritePage_def ReadPage_def
lemmas run_defs = outcome_def final_def MarkBlockBad_def ensure_found_def WriteBadBlockTable_def
  write_loop.simps write_attempt_def host_unusable_def GetNewBlock.simps find_least_pe_def
  least_pe_scan.simps invalidate_def Let_def

subsection \<open>The bad-block list\<close>

lemma upt_word_step:
  "(blk :: 32 word) < last_block \<Longrightarrow>
     map of_nat [unat blk..<unat last_block] = blk # (map of_nat [unat (blk + 1)..<unat last_block] :: 32 word list)"
  by (simp add: unat_succ_less upt_conv_Cons word_less_nat_alt)

lemma copy_bad_eq:
  "copy_bad tbl blk last_block acc = acc @ bad_in_range tbl blk last_block"
proof (induction tbl blk last_block acc rule: copy_bad.induct)
  case (1 tbl blk last_block acc)
  show ?case
  proof (cases "blk < last_block")
    case True
    then show ?thesis
      using "1.IH" [OF True]
      by (simp add: copy_bad.simps [of tbl blk] bad_in_range_def upt_word_step)
  next
    case False
    then show ?thesis
      by (simp add: copy_bad.simps [of tbl blk] bad_in_range_def word_less_nat_alt)
  qed
qed

lemma count_bad_eq:
  "count_bad tbl blk last_block n = n + length (bad_in_range tbl blk last_block)"
proof (induction tbl blk last_block n rule: count_bad.induct)
  case (1 tbl blk last_block n)
  show ?case
  proof (cases "blk < last_block")
    case True
    then show ?thesis
      using "1.IH" [OF True]
      by (simp add: count_bad.simps [of tbl blk] bad_in_range_def upt_word_step)
  next
    case False
    then show ?thesis
      by (simp add: count_bad.simps [of tbl blk] bad_in_range_def word_less_nat_alt)
  qed
qed

lemma set_bad_in_range:
  "set (bad_in_range tbl first_block last_block) =
     {b. first_block \<le> b \<and> b < last_block \<and> tbl (unat b) \<noteq> kNandBlockGood}"
proof -
  have "set (map of_nat [unat first_block..<unat last_block] :: 32 word list) = {b. first_block \<le> b \<and> b < last_block}"
  proof (intro set_eqI iffI)
    fix b :: "32 word"
    assume "b \<in> set (map of_nat [unat first_block..<unat last_block])"
    then obtain n where n: "unat first_block \<le> n" "n < unat last_block" "b = of_nat n" by auto
    then have "unat b = n" using le_unat_uoi [of n last_block] by simp
    with n show "b \<in> {b. first_block \<le> b \<and> b < last_block}"
      by (simp add: word_le_nat_alt word_less_nat_alt)
  next
    fix b :: "32 word"
    assume "b \<in> {b. first_block \<le> b \<and> b < last_block}"
    then have "unat b \<in> set [unat first_block..<unat last_block]"
      by (simp add: word_le_nat_alt word_less_nat_alt)
    then have "of_nat (unat b) \<in> set (map of_nat [unat first_block..<unat last_block] :: 32 word list)"
      unfolding set_map by (rule imageI)
    then show "b \<in> set (map of_nat [unat first_block..<unat last_block])" by simp
  qed
  then show ?thesis by (auto simp: bad_in_range_def)
qed

text \<open>
  C5. Once discovery has succeeded and when the allocation of the result succeeds:
  for \<open>first < num_blocks\<close> and \<open>last \<le> num_blocks\<close>, \<open>list_bad(first, last)\<close> returns \<open>OK\<close> with
  the sequence of exactly the blocks \<open>b\<close> of \<open>[first, last)\<close> with \<open>T[b] \<noteq> GOOD\<close>, whatever
  the caller's array held; for \<open>first \<ge> num_blocks\<close> or \<open>last > num_blocks\<close> it returns
  \<open>INVALID_ARGS\<close>.
\<close>

theorem list_bad_range:
  assumes "ensure_found np c s = Some (Inr (ZX_OK, s1))" and "alloc_ok"
  shows "(first_block < table_len c \<and> last_block \<le> table_len c \<longrightarrow>
            GetBadBlockList np c alloc_ok bad_blocks first_block last_block s
              = Some (Inr (ZX_OK, bad_in_range (table s1) first_block last_block, s1))
            \<and> set (bad_in_range (table s1) first_block last_block)
                = {b. first_block \<le> b \<and> b < last_block \<and> table s1 (unat b) \<noteq> kNandBlockGood})
       \<and> (first_block \<ge> table_len c \<or> last_block > table_len c \<longrightarrow>
            GetBadBlockList np c alloc_ok bad_blocks first_block last_block s
              = Some (Inr (ZX_ERR_INVALID_ARGS, bad_blocks, s1)))"
  using assms
  by (auto simp: GetBadBlockList_def Let_def count_bad_eq copy_bad_eq set_bad_in_range)

theorem list_bad_range_witness:
  "ensure_found (sim_nand [] [] 64) (sim_config 60 63) marked = Some (Inr (ZX_OK, marked))
   \<and> GetBadBlockList (sim_nand [] [] 64) (sim_config 60 63) True [] 4 8 marked
       = Some (Inr (ZX_OK, [5, 6], marked))
   \<and> GetBadBlockList (sim_nand [] [] 64) (sim_config 60 63) True [9] 64 64 marked
       = Some (Inr (ZX_ERR_INVALID_ARGS, [9], marked))"
proof -
  let ?np = "sim_nand [] [] 64" and ?c = "sim_config 60 63"
  have h: "ensure_found ?np ?c marked = Some (Inr (ZX_OK, marked))"
    by (simp add: ensure_found_def marked_def sim_defs)
  have l: "bad_in_range (table marked) 4 8 = [5, 6]"
    by (simp add: bad_in_range_def marked_def sim_defs const_defs)
  have r1: "(4 :: 32 word) < table_len ?c \<and> (8 :: 32 word) \<le> table_len ?c"
    by (simp add: sim_defs const_defs)
  have r2: "(64 :: 32 word) \<ge> table_len ?c \<or> (64 :: 32 word) > table_len ?c"
    by (simp add: sim_defs const_defs)
  from list_bad_range [OF h TrueI, of 4 8 "[]"] list_bad_range [OF h TrueI, of 64 64 "[9]"] h l r1 r2
  show ?thesis by simp
qed

subsection \<open>The writer and \<open>mark_bad\<close>\<close>

lemma WriteBadBlockTable_fields:
  assumes "WriteBadBlockTable np c u s = Inr (status, s')"
  shows "found s' = found s
     \<and> (\<forall>i. table s' i \<noteq> table s i \<longrightarrow> table s' i = kNandBlockBad)
     \<and> (status \<noteq> ZX_OK \<longrightarrow> status = ZX_ERR_NOT_FOUND \<and> generation s' = generation s)
     \<and> (status = ZX_OK \<longrightarrow> generation s' = generation s + 1
           \<and> oob_generation (oob s') = generation s \<and> magic (oob s') = kBadBlockTableMagic)"
proof -
  let ?cnt = "(table_len c + page_size c - 1) div page_size c"
  from assms have nz: "page_size c \<noteq> 0"
    by (auto simp: WriteBadBlockTable_def split: if_splits)
  with assms obtain st s1 where wl: "write_loop np c ?cnt u s = Inr (st, s1)"
    by (auto simp: WriteBadBlockTable_def Let_def split: sum.splits)
  note f = write_loop_fields [OF wl]
  show ?thesis
  proof (cases "st = ZX_OK")
    case True
    with assms nz wl have "status = ZX_OK" "s' = s1\<lparr>page := page s1 + ?cnt, generation := generation s1 + 1\<rparr>"
      by (simp_all add: WriteBadBlockTable_def Let_def)
    with f True show ?thesis by simp
  next
    case False
    with assms nz wl have "status = st" "s' = s1"
      by (simp_all add: WriteBadBlockTable_def Let_def)
    with f False show ?thesis by simp
  qed
qed

lemma WriteBadBlockTable_marked:
  assumes "WriteBadBlockTable np c u (s\<lparr>table := (table s)(j := kNandBlockBad)\<rparr>) = Inr (status, s')"
  shows "table s' j = kNandBlockBad"
    and "\<forall>i. table s' i \<noteq> table s i \<longrightarrow> table s' i = kNandBlockBad"
proof -
  let ?s0 = "s\<lparr>table := (table s)(j := kNandBlockBad)\<rparr>"
  have tbl: "\<And>i. table s' i \<noteq> table ?s0 i \<Longrightarrow> table s' i = kNandBlockBad"
    using WriteBadBlockTable_fields [OF assms] by blast
  show "table s' j = kNandBlockBad"
    using tbl [of j] by (cases "table s' j = table ?s0 j") simp_all
  show "\<forall>i. table s' i \<noteq> table s i \<longrightarrow> table s' i = kNandBlockBad"
  proof (intro allI impI)
    fix i assume "table s' i \<noteq> table s i"
    then show "table s' i = kNandBlockBad"
      using tbl [of i] by (cases "i = j"; cases "table s' i = table ?s0 i") simp_all
  qed
qed


lemma MarkBlockBad_found:
  assumes "found s" and "blk < table_len c" and "MarkBlockBad np c blk s = Some (Inr (status, s'))"
  shows "(table s (unat blk) \<noteq> kNandBlockGood \<and> status = ZX_OK \<and> s' = s)
       \<or> (table s (unat blk) = kNandBlockGood
           \<and> WriteBadBlockTable np c False (s\<lparr>table := (table s)(unat blk := kNandBlockBad)\<rparr>) = Inr (status, s'))"
  using assms
  by (auto simp: MarkBlockBad_def ensure_found_def word_less_nat_alt split: if_splits)

text \<open>
  C1, as the code has it. When \<open>mark_bad(block)\<close> passes its range check on a block that
  was good and the write of the new record fails, the call returns \<open>NOT_FOUND\<close> and the
  generation counter is unchanged, but the in-memory table does not revert: it still
  records the block as bad, and it differs from its contents before the call only in
  entries that have become bad.
\<close>

theorem failed_mark_bad_keeps_entry:
  assumes "found s" and "blk < table_len c" and "table s (unat blk) = kNandBlockGood"
    and "MarkBlockBad np c blk s = Some (Inr (status, s'))" and "status \<noteq> ZX_OK"
  shows "status = ZX_ERR_NOT_FOUND \<and> table s' (unat blk) = kNandBlockBad
         \<and> generation s' = generation s \<and> found s'
         \<and> (\<forall>i. table s' i \<noteq> table s i \<longrightarrow> table s' i = kNandBlockBad)"
proof -
  let ?s0 = "s\<lparr>table := (table s)(unat blk := kNandBlockBad)\<rparr>"
  from MarkBlockBad_found [OF assms(1,2,4)] assms(3)
  have w: "WriteBadBlockTable np c False ?s0 = Inr (status, s')" by simp
  note f = WriteBadBlockTable_fields [OF w]
  note m = WriteBadBlockTable_marked [OF w]
  from m f assms(1,5) show ?thesis by simp
qed

lemma write_pages_persist:
  "write_pages np c blk n i s = Inr (True, s') \<Longrightarrow>
     writes_ok np (blk * pages_per_block c + page s) n i (table s) (oob s) (nand s) = Some (nand s')"
proof (induction n arbitrary: i s)
  case 0
  then show ?case by simp
next
  case (Suc n)
  obtain status s1 where w: "WritePage np (blk * pages_per_block c + page s + i) (ucast i) s = (status, s1)"
    by (cases "WritePage np (blk * pages_per_block c + page s + i) (ucast i) s")
  note f = fields_WritePage [OF w]
  from w have q: "queue_write np (blk * pages_per_block c + page s + i) (ucast i) (table s) (oob s) (nand s)
                    = (status, nand s1)"
    by (auto simp: WritePage_def split: prod.splits)
  show ?case
  proof (cases "status = ZX_OK")
    case True
    with Suc.prems w have "write_pages np c blk n (i + 1) s1 = Inr (True, s')" by simp
    from Suc.IH [OF this] f q True show ?thesis by simp
  next
    case False
    with Suc.prems w show ?thesis by (auto split: if_splits)
  qed
qed

lemma write_attempt_persist:
  assumes "write_attempt np c cnt use_new s = Inr (Inr True, s')"
  shows "\<exists>e n0. block_entry s' = Some e
           \<and> writes_ok np (block (block_list s' e) * pages_per_block c + page s') (unat cnt) 0
                (table s') (oob s') n0 = Some (nand s')"
proof -
  from assms obtain need where need: "host_unusable c cnt use_new s = Inr need"
    by (auto simp: write_attempt_def split: sum.splits)
  from assms need obtain status s1 where g: "(if need then GetNewBlock np c s else Inr (ZX_OK, s)) = Inr (status, s1)"
    by (auto simp: write_attempt_def split: sum.splits)
  from assms need g have ok: "status = ZX_OK"
    by (auto simp: write_attempt_def split: sum.splits if_splits)
  from assms need g ok obtain e where e: "block_entry s1 = Some e"
    by (auto simp: write_attempt_def split: sum.splits option.splits)
  let ?s2 = "s1\<lparr>oob := \<lparr>magic = kBadBlockTableMagic,
                        oob_program_erase_cycles = program_erase_cycles (block_list s1 e),
                        oob_generation = generation s1\<rparr>\<rparr>"
  from assms need g ok e
  have w: "write_pages np c (block (block_list s1 e)) (unat cnt) 0 ?s2 = Inr (True, s')"
    by (auto simp: write_attempt_def Let_def split: sum.splits)
  from write_pages_persist [OF w] write_pages_fields [OF w] e show ?thesis
    by auto
qed

lemma write_loop_persist:
  "write_loop np c cnt u s = Inr (ZX_OK, s') \<Longrightarrow>
     \<exists>e n0. block_entry s' = Some e
       \<and> writes_ok np (block (block_list s' e) * pages_per_block c + page s') (unat cnt) 0
            (table s') (oob s') n0 = Some (nand s')"
proof (induction np c cnt u s rule: write_loop.induct)
  case (1 np c cnt u s)
  note run = "1.prems"
  from run obtain r s1 where wa: "write_attempt np c cnt u s = Inr (r, s1)"
    by (auto simp: write_loop.simps [of np c cnt u s] split: sum.splits)
  show ?case
  proof (cases r)
    case (Inl st)
    with run wa have "st = ZX_OK"
      by (simp add: write_loop.simps [of np c cnt u s])
    with write_attempt_fields [OF wa] Inl show ?thesis by simp
  next
    case (Inr successful)
    show ?thesis
    proof (cases successful)
      case True
      with run wa Inr have "s' = s1"
        by (simp add: write_loop.simps [of np c cnt u s])
      with write_attempt_persist [of np c cnt u s s1] wa Inr True show ?thesis by simp
    next
      case False
      with run wa Inr have rec: "write_loop np c cnt False s1 = Inr (ZX_OK, s')"
        by (simp add: write_loop.simps [of np c cnt u s])
      show ?thesis by (rule "1.IH" [OF wa refl Inr False rec])
    qed
  qed
qed

lemma WriteBadBlockTable_persist:
  assumes "WriteBadBlockTable np c u s = Inr (ZX_OK, s')"
  shows "record_on_flash np c s'"
proof -
  from assms have nz: "page_size c \<noteq> 0"
    by (auto simp: WriteBadBlockTable_def split: if_splits)
  with assms obtain st s1 where wl: "write_loop np c (stride_of c) u s = Inr (st, s1)"
    by (auto simp: WriteBadBlockTable_def Let_def stride_of_def split: sum.splits)
  with assms nz have st: "st = ZX_OK"
    and s': "s' = s1\<lparr>page := page s1 + stride_of c, generation := generation s1 + 1\<rparr>"
    by (auto simp: WriteBadBlockTable_def Let_def stride_of_def split: if_splits)
  from write_loop_persist [OF wl [unfolded st]] show ?thesis
    unfolding record_on_flash_def s' by simp
qed

text \<open>
  C7, as the code has it. In a state where discovery has run, for a block below
  \<open>num_blocks\<close>: after one \<open>mark_bad(b)\<close>, whatever it returned, a second \<open>mark_bad(b)\<close>
  returns \<open>OK\<close> and changes nothing, neither the object nor the NAND. When the block was
  good and the first call returned \<open>OK\<close>, the pair has persisted one record: the first
  call ended with a complete stride of successful page writes of the table with the
  block bad, under the header with the magic and the generation before the call, and
  the generation counter has advanced by exactly one (as a 16-bit counter). When the
  block was good and the first call failed, it returned \<open>NOT_FOUND\<close> and the counter is
  unchanged. When the block was already marked, the first call was the same no-op.
\<close>

theorem mark_bad_idempotent:
  assumes "found s" and "blk < table_len c" and "MarkBlockBad np c blk s = Some (Inr (status, s1))"
  shows "MarkBlockBad np c blk s1 = Some (Inr (ZX_OK, s1))
         \<and> (table s (unat blk) \<noteq> kNandBlockGood \<longrightarrow> status = ZX_OK \<and> s1 = s)
         \<and> (table s (unat blk) = kNandBlockGood \<and> status \<noteq> ZX_OK \<longrightarrow>
               status = ZX_ERR_NOT_FOUND \<and> generation s1 = generation s)
         \<and> (table s (unat blk) = kNandBlockGood \<and> status = ZX_OK \<longrightarrow>
               generation s1 = generation s + 1 \<and> table s1 (unat blk) = kNandBlockBad
               \<and> magic (oob s1) = kBadBlockTableMagic \<and> oob_generation (oob s1) = generation s
               \<and> record_on_flash np c s1)"
proof -
  let ?s0 = "s\<lparr>table := (table s)(unat blk := kNandBlockBad)\<rparr>"
  have inb: "unat blk < unat (table_len c)" "\<not> blk > table_len c"
    using assms(2) by (simp_all add: word_less_nat_alt)
  show ?thesis
  proof (cases "table s (unat blk) = kNandBlockGood")
    case False
    with MarkBlockBad_found [OF assms] have "status = ZX_OK" "s1 = s" by simp_all
    with False assms(1) inb show ?thesis
      by (simp add: MarkBlockBad_def ensure_found_def)
  next
    case True
    with MarkBlockBad_found [OF assms]
    have w: "WriteBadBlockTable np c False ?s0 = Inr (status, s1)" by simp
    note f = WriteBadBlockTable_fields [OF w]
    have bad: "table s1 (unat blk) = kNandBlockBad"
      by (rule WriteBadBlockTable_marked(1) [OF w])
    then have "table s1 (unat blk) \<noteq> kNandBlockGood"
      using good_not_bad by simp
    moreover have "found s1" using f assms(1) by simp
    ultimately have again: "MarkBlockBad np c blk s1 = Some (Inr (ZX_OK, s1))"
      using inb by (simp add: MarkBlockBad_def ensure_found_def)
    have "record_on_flash np c s1" if "status = ZX_OK"
      using w that by (auto intro: WriteBadBlockTable_persist)
    with again True f bad show ?thesis by simp
  qed
qed


theorem failed_mark_bad_counterexample:
  "outcome (MarkBlockBad (sim_nand [61] [] 64) (sim_config 60 63) 5 host_full) = Some (Inr ZX_ERR_NOT_FOUND)
   \<and> table host_full 5 = kNandBlockGood
   \<and> table (final host_full (MarkBlockBad (sim_nand [61] [] 64) (sim_config 60 63) 5 host_full)) 5 = kNandBlockBad
   \<and> nand (final host_full (MarkBlockBad (sim_nand [61] [] 64) (sim_config 60 63) 5 host_full)) = nand host_full
   \<and> generation (final host_full (MarkBlockBad (sim_nand [61] [] 64) (sim_config 60 63) 5 host_full))
       = generation host_full"
  by (simp add: sim_defs const_defs io_defs run_defs)

theorem failed_mark_bad_keeps_entry_witness:
  "found host_full \<and> (5 :: 32 word) < table_len (sim_config 60 63)
   \<and> table host_full (unat (5 :: 32 word)) = kNandBlockGood
   \<and> outcome (MarkBlockBad (sim_nand [61] [] 64) (sim_config 60 63) 5 host_full) \<noteq> Some (Inr ZX_OK)
   \<and> outcome (MarkBlockBad (sim_nand [61] [] 64) (sim_config 60 63) 5 host_full) = Some (Inr ZX_ERR_NOT_FOUND)
   \<and> table (final host_full (MarkBlockBad (sim_nand [61] [] 64) (sim_config 60 63) 5 host_full))
        (unat (5 :: 32 word)) = kNandBlockBad"
proof -
  let ?np = "sim_nand [61] [] 64" and ?c = "sim_config 60 63"
  have h1: "found host_full" by (simp add: sim_defs)
  have h2: "(5 :: 32 word) < table_len ?c" by (simp add: sim_defs const_defs)
  have h3: "table host_full (unat (5 :: 32 word)) = kNandBlockGood" by (simp add: sim_defs)
  obtain status s' where run: "MarkBlockBad ?np ?c 5 host_full = Some (Inr (status, s'))"
    and st: "status \<noteq> ZX_OK"
    by (simp add: sim_defs const_defs io_defs run_defs)
  from failed_mark_bad_keeps_entry [OF h1 h2 h3 run st] h1 h2 h3 st show ?thesis
    by (simp add: run outcome_def final_def)
qed



theorem mark_bad_idempotent_witness:
  "found hosted \<and> (5 :: 32 word) < table_len (sim_config 60 63)
   \<and> table hosted (unat (5 :: 32 word)) = kNandBlockGood
   \<and> outcome (MarkBlockBad (sim_nand [] [] 64) (sim_config 60 63) 5 hosted) = Some (Inr ZX_OK)
   \<and> MarkBlockBad (sim_nand [] [] 64) (sim_config 60 63) 5
        (final hosted (MarkBlockBad (sim_nand [] [] 64) (sim_config 60 63) 5 hosted))
       = Some (Inr (ZX_OK, final hosted (MarkBlockBad (sim_nand [] [] 64) (sim_config 60 63) 5 hosted)))
   \<and> generation (final hosted (MarkBlockBad (sim_nand [] [] 64) (sim_config 60 63) 5 hosted))
       = generation hosted + 1
   \<and> record_on_flash (sim_nand [] [] 64) (sim_config 60 63)
        (final hosted (MarkBlockBad (sim_nand [] [] 64) (sim_config 60 63) 5 hosted))
   \<and> flash_pages (nand (final hosted (MarkBlockBad (sim_nand [] [] 64) (sim_config 60 63) 5 hosted))) = [3840]
   \<and> flash_generations (nand (final hosted (MarkBlockBad (sim_nand [] [] 64) (sim_config 60 63) 5 hosted))) = [5]
   \<and> flash_status (nand (final hosted (MarkBlockBad (sim_nand [] [] 64) (sim_config 60 63) 5 hosted))) 5
       = [kNandBlockBad]"
proof -
  let ?np = "sim_nand [] [] 64" and ?c = "sim_config 60 63"
  have h1: "found hosted" by (simp add: sim_defs)
  have h2: "(5 :: 32 word) < table_len ?c" by (simp add: sim_defs const_defs)
  have h3: "table hosted (unat (5 :: 32 word)) = kNandBlockGood" by (simp add: sim_defs const_defs)
  obtain s1 where run: "MarkBlockBad ?np ?c 5 hosted = Some (Inr (ZX_OK, s1))"
    by (simp add: sim_defs const_defs io_defs run_defs)
  have fl: "flash_pages (nand (final hosted (MarkBlockBad ?np ?c 5 hosted))) = [3840]"
    "flash_generations (nand (final hosted (MarkBlockBad ?np ?c 5 hosted))) = [5]"
    "flash_status (nand (final hosted (MarkBlockBad ?np ?c 5 hosted))) 5 = [kNandBlockBad]"
    by code_simp+
  from mark_bad_idempotent [OF h1 h2 run] h1 h2 h3 fl show ?thesis
    by (simp add: run outcome_def final_def)
qed

theorem mark_bad_pair_counterexample:
  "table host_full 5 = kNandBlockGood
   \<and> outcome (MarkBlockBad (sim_nand [61] [] 64) (sim_config 60 63) 5 host_full) = Some (Inr ZX_ERR_NOT_FOUND)
   \<and> outcome (MarkBlockBad (sim_nand [61] [] 64) (sim_config 60 63) 5
        (final host_full (MarkBlockBad (sim_nand [61] [] 64) (sim_config 60 63) 5 host_full))) = Some (Inr ZX_OK)
   \<and> generation (final (final host_full (MarkBlockBad (sim_nand [61] [] 64) (sim_config 60 63) 5 host_full))
        (MarkBlockBad (sim_nand [61] [] 64) (sim_config 60 63) 5
          (final host_full (MarkBlockBad (sim_nand [61] [] 64) (sim_config 60 63) 5 host_full))))
       = generation host_full
   \<and> flash_pages (nand (final (final host_full (MarkBlockBad (sim_nand [61] [] 64) (sim_config 60 63) 5 host_full))
        (MarkBlockBad (sim_nand [61] [] 64) (sim_config 60 63) 5
          (final host_full (MarkBlockBad (sim_nand [61] [] 64) (sim_config 60 63) 5 host_full))))) = []
   \<and> table marked 5 = kNandBlockBad
   \<and> outcome (MarkBlockBad (sim_nand [] [] 64) (sim_config 60 63) 5 marked) = Some (Inr ZX_OK)
   \<and> generation (final marked (MarkBlockBad (sim_nand [] [] 64) (sim_config 60 63) 5 marked)) = generation marked
   \<and> flash_pages (nand (final marked (MarkBlockBad (sim_nand [] [] 64) (sim_config 60 63) 5 marked))) = []"
  by code_simp

subsection \<open>Discovery on a virgin device\<close>

lemma ReadPage_keeps:
  "ReadPage np pg off s = (status, s1) \<Longrightarrow>
     block_entry s1 = block_entry s \<and> block_list s1 = block_list s \<and> generation s1 = generation s
     \<and> page s1 = page s \<and> found s1 = found s"
  by (auto simp: ReadPage_def split: prod.splits)

lemma probe_block_virgin:
  assumes "virgin np c V" and "V (nand s)"
    and "table_start_block c \<le> blk" and "blk \<le> table_end_block c"
  shows "\<exists>s1. probe_block np 6 (blk * pages_per_block c) stride ZX_ERR_INTERNAL s = (ZX_OK, s1)
           \<and> V (nand s1) \<and> magic (oob s1) \<noteq> kBadBlockTableMagic \<and> block_entry s1 = block_entry s"
proof -
  obtain st s1 where r: "ReadPage np (blk * pages_per_block c) 0 s = (st, s1)"
    by (cases "ReadPage np (blk * pages_per_block c) 0 s")
  from assms have "case queue_read np (blk * pages_per_block c) 0 (table s) (oob s) (nand s) of
           (status, tbl', ob', n') \<Rightarrow> status = ZX_OK \<and> magic ob' \<noteq> kBadBlockTableMagic \<and> V n'"
    unfolding virgin_def by (elim allE [where x = blk] allE [where x = "table s"] allE [where x = "oob s"] allE [where x = "nand s"]) simp
  with r have "st = ZX_OK" "magic (oob s1) \<noteq> kBadBlockTableMagic" "V (nand s1)"
    by (auto simp: ReadPage_def split: prod.splits)
  moreover have "probe_block np 6 (blk * pages_per_block c) stride ZX_ERR_INTERNAL s
                   = probe_block np 5 (blk * pages_per_block c + stride) stride st s1"
    using r by (simp add: eval_nat_numeral)
  moreover have "probe_block np 5 (blk * pages_per_block c + stride) stride ZX_OK s1 = (ZX_OK, s1)"
    by (simp add: eval_nat_numeral)
  ultimately show ?thesis
    using ReadPage_keeps [OF r] by simp
qed

lemma scan_blocks_virgin:
  assumes v: "virgin np c V" and e: "unat (table_end_block c) + 1 < 2 ^ 32"
  shows "V (nand s) \<Longrightarrow> block_entry s = None \<Longrightarrow> table_start_block c \<le> blk
         \<Longrightarrow> k = unat (table_end_block c) + 1 - unat blk \<Longrightarrow> unat blk \<le> unat (table_end_block c) + 1
         \<Longrightarrow> valid_blocks + k \<le> kBlockListMax
         \<Longrightarrow> \<exists>s'. scan_blocks np c stride blk valid_blocks s = Some (Inr s') \<and> block_entry s' = None"
proof (induction k arbitrary: blk valid_blocks s)
  case 0
  then have "\<not> blk \<le> table_end_block c"
    by (simp add: word_le_nat_alt)
  with 0 show ?case
    by (simp add: scan_blocks.simps [of np c stride blk])
next
  case (Suc k)
  from Suc.prems(4) have le: "blk \<le> table_end_block c"
    by (simp add: word_le_nat_alt)
  from probe_block_virgin [OF v Suc.prems(1) Suc.prems(3) le, of stride]
  obtain s1 where p: "probe_block np 6 (blk * pages_per_block c) stride ZX_ERR_INTERNAL s = (ZX_OK, s1)"
    and s1: "V (nand s1)" "magic (oob s1) \<noteq> kBadBlockTableMagic" "block_entry s1 = block_entry s"
    by blast
  let ?s2 = "s1\<lparr>block_list := (block_list s1)(valid_blocks :=
                \<lparr>block = blk, program_erase_cycles = oob_program_erase_cycles (oob s1), valid = True\<rparr>)\<rparr>"
  from Suc.prems(6) have vb: "valid_blocks < kBlockListMax" by simp
  have step: "scan_blocks np c stride blk valid_blocks s
                = scan_blocks np c stride (blk + 1) (valid_blocks + 1) ?s2"
    using le p s1 vb by (simp add: scan_blocks.simps [of np c stride blk] Let_def)
  have ub: "unat (blk + 1) = unat blk + 1"
    using le e by (simp add: unat_word_ariths word_le_nat_alt)
  have "\<exists>s'. scan_blocks np c stride (blk + 1) (valid_blocks + 1) ?s2 = Some (Inr s') \<and> block_entry s' = None"
  proof (rule Suc.IH)
    show "V (nand ?s2)" using s1 by simp
    show "block_entry ?s2 = None" using s1 Suc.prems(2) by simp
    show "table_start_block c \<le> blk + 1"
      using Suc.prems(3) ub by (simp add: word_le_nat_alt)
    show "k = unat (table_end_block c) + 1 - unat (blk + 1)"
      using Suc.prems(4) ub by simp
    show "unat (blk + 1) \<le> unat (table_end_block c) + 1"
      using le ub by (simp add: word_le_nat_alt)
    show "valid_blocks + 1 + k \<le> kBlockListMax"
      using Suc.prems(6) by simp
  qed
  with step show ?case by simp
qed

text \<open>
  C2, as the code has it. On a virgin device (the first page of every reserved block
  reads successfully and without the magic, in every state the reads lead to) and with a
  configuration of at most eight reserved blocks that passes the checks, discovery fails
  with \<open>INTERNAL\<close>, and so does the first query or mutation that triggers it.
\<close>

theorem virgin_discovery_internal:
  assumes "virgin np c V" and "V (nand s)"
    and "sizeof_OobMetadata \<le> oob_size c" and "page_size c \<noteq> 0"
    and "table_start_block c < table_end_block c"
    and "unat (table_end_block c) - unat (table_start_block c) \<le> 7"
    and "table_end_block c \<noteq> 0xFFFFFFFF"
  shows "outcome (FindBadBlockTable np c s) = Some (Inr ZX_ERR_INTERNAL)
         \<and> (\<not> found s \<longrightarrow>
               outcome (IsBlockBad np c blk s) = Some (Inr ZX_ERR_INTERNAL)
               \<and> outcome (MarkBlockBad np c blk s) = Some (Inr ZX_ERR_INTERNAL)
               \<and> outcome (GetBadBlockList np c alloc_ok bad_blocks first_block last_block s)
                   = Some (Inr ZX_ERR_INTERNAL))"
proof -
  let ?blocks = "table_end_block c - table_start_block c"
  let ?stride = "(table_len c + page_size c - 1) div page_size c"
  have ub: "unat ?blocks = unat (table_end_block c) - unat (table_start_block c)"
    using assms(5) by (simp add: unat_sub word_less_nat_alt word_le_nat_alt)
  have lt: "unat (table_start_block c) < unat (table_end_block c)"
    using assms(5) by (simp add: word_less_nat_alt)
  have chk: "\<not> (?blocks = 0 \<or> unat ?blocks > kBlockListMax)"
    using ub lt assms(6) by (auto simp: kBlockListMax_def unat_eq_zero [symmetric] simp del: unat_eq_zero)
  have "unat (table_end_block c) \<noteq> unat (0xFFFFFFFF :: 32 word)"
    using assms(7) by (simp only: word_unat_eq_iff [symmetric] not_False_eq_True)
  moreover have "unat (table_end_block c) < 2 ^ 32"
    using unsigned_less [of "table_end_block c", where 'a = nat] by simp
  ultimately have e: "unat (table_end_block c) + 1 < 2 ^ 32" by simp
  have "\<exists>s'. scan_blocks np c ?stride (table_start_block c) 0 (s\<lparr>block_entry := None\<rparr>) = Some (Inr s')
             \<and> block_entry s' = None"
  proof (rule scan_blocks_virgin [OF assms(1) e])
    show "V (nand (s\<lparr>block_entry := None\<rparr>))" using assms(2) by simp
    show "0 + (unat (table_end_block c) + 1 - unat (table_start_block c)) \<le> kBlockListMax"
      using lt assms(6) by (simp add: kBlockListMax_def)
    show "unat (table_start_block c) \<le> unat (table_end_block c) + 1" using lt by simp
  qed simp_all
  then obtain s' where sc: "scan_blocks np c ?stride (table_start_block c) 0 (s\<lparr>block_entry := None\<rparr>) = Some (Inr s')"
    and be: "block_entry s' = None" by blast
  have f: "FindBadBlockTable np c s = Some (Inr (ZX_ERR_INTERNAL, s'))"
    using assms(3,4) chk sc be
    by (simp add: FindBadBlockTable_def Let_def not_less)
  then show ?thesis
    by (simp add: outcome_def IsBlockBad_def MarkBlockBad_def GetBadBlockList_def ensure_found_def)
qed

theorem virgin_discovery_internal_witness:
  "virgin (sim_nand [] [] 64) (sim_config 60 63) unwritten \<and> unwritten (nand fresh)
   \<and> sizeof_OobMetadata \<le> oob_size (sim_config 60 63) \<and> page_size (sim_config 60 63) \<noteq> 0
   \<and> table_start_block (sim_config 60 63) < table_end_block (sim_config 60 63)
   \<and> outcome (FindBadBlockTable (sim_nand [] [] 64) (sim_config 60 63) fresh) = Some (Inr ZX_ERR_INTERNAL)
   \<and> outcome (GetBadBlockList (sim_nand [] [] 64) (sim_config 60 63) True [] 0 64 fresh) = Some (Inr ZX_ERR_INTERNAL)"
proof -
  let ?np = "sim_nand [] [] 64" and ?c = "sim_config 60 63"
  have h1: "virgin ?np ?c unwritten"
    by (simp add: virgin_def unwritten_def sim_defs const_defs)
  have h2: "unwritten (nand fresh)" by (simp add: unwritten_def sim_defs)
  have h3: "sizeof_OobMetadata \<le> oob_size ?c" by (simp add: sim_defs const_defs)
  have h4: "page_size ?c \<noteq> 0" by (simp add: sim_defs)
  have h5: "table_start_block ?c < table_end_block ?c" by (simp add: sim_defs)
  have h6: "unat (table_end_block ?c) - unat (table_start_block ?c) \<le> 7" by (simp add: sim_defs)
  have h7: "table_end_block ?c \<noteq> 0xFFFFFFFF" by (simp add: sim_defs)
  have nf: "\<not> found fresh" by (simp add: sim_defs)
  from virgin_discovery_internal [OF h1 h2 h3 h4 h5 h6 h7, of 5 True "[]" 0 64] nf h1 h2 h3 h4 h5
  show ?thesis by simp
qed

theorem virgin_discovery_counterexample:
  "virgin (sim_nand [] [] 64) (sim_config 60 63) unwritten \<and> unwritten (nand fresh)
   \<and> outcome (FindBadBlockTable (sim_nand [] [] 64) (sim_config 60 63) fresh) = Some (Inr ZX_ERR_INTERNAL)
   \<and> outcome (FindBadBlockTable (sim_nand [] [] 64) (sim_config 60 63) fresh) \<noteq> Some (Inr ZX_ERR_NOT_FOUND)
   \<and> outcome (IsBlockBad (sim_nand [] [] 64) (sim_config 60 63) 5 fresh) = Some (Inr ZX_ERR_INTERNAL)
   \<and> outcome (MarkBlockBad (sim_nand [] [] 64) (sim_config 60 63) 5 fresh) = Some (Inr ZX_ERR_INTERNAL)"
proof -
  have "virgin (sim_nand [] [] 64) (sim_config 60 63) unwritten"
    by (simp add: virgin_def unwritten_def sim_defs const_defs)
  moreover have "unwritten (nand fresh)"
    by (simp add: unwritten_def sim_defs)
  moreover have "outcome (FindBadBlockTable (sim_nand [] [] 64) (sim_config 60 63) fresh) = Some (Inr ZX_ERR_INTERNAL)"
    by code_simp
  moreover have "outcome (IsBlockBad (sim_nand [] [] 64) (sim_config 60 63) 5 fresh) = Some (Inr ZX_ERR_INTERNAL)"
    by code_simp
  moreover have "outcome (MarkBlockBad (sim_nand [] [] 64) (sim_config 60 63) 5 fresh) = Some (Inr ZX_ERR_INTERNAL)"
    by code_simp
  ultimately show ?thesis by simp
qed

subsection \<open>The reserved range\<close>

text \<open>
  A range of at most eight blocks that ends below \<open>0xFFFFFFFF\<close> is scanned to its end
  within the array, whatever the reads return.
\<close>

lemma probe_block_fields:
  "probe_block np n pg stride st s = (st', s') \<Longrightarrow>
     block_entry s' = block_entry s \<and> block_list s' = block_list s \<and> generation s' = generation s"
proof (induction n arbitrary: pg st s)
  case 0
  then show ?case by simp
next
  case (Suc n)
  show ?case
  proof (cases "st = ZX_OK")
    case True
    with Suc.prems show ?thesis by simp
  next
    case False
    obtain st1 s1 where r: "ReadPage np pg 0 s = (st1, s1)" by (cases "ReadPage np pg 0 s")
    with False Suc.prems have "probe_block np n (pg + stride) stride st1 s1 = (st', s')" by simp
    from Suc.IH [OF this] ReadPage_keeps [OF r] show ?thesis by simp
  qed
qed

lemma scan_blocks_in_bounds:
  assumes e: "unat (table_end_block c) + 1 < 2 ^ 32"
  shows "k = unat (table_end_block c) + 1 - unat blk \<Longrightarrow> unat blk \<le> unat (table_end_block c) + 1
         \<Longrightarrow> valid_blocks + k \<le> kBlockListMax
         \<Longrightarrow> \<exists>s'. scan_blocks np c stride blk valid_blocks s = Some (Inr s')"
proof (induction k arbitrary: blk valid_blocks s)
  case 0
  then have "\<not> blk \<le> table_end_block c"
    by (simp add: word_le_nat_alt)
  then show ?case
    by (simp add: scan_blocks.simps [of np c stride blk])
next
  case (Suc k)
  from Suc.prems(1) have le: "blk \<le> table_end_block c"
    by (simp add: word_le_nat_alt)
  have ub: "unat (blk + 1) = unat blk + 1"
    using le e by (simp add: unat_word_ariths word_le_nat_alt)
  obtain st s1 where p: "probe_block np 6 (blk * pages_per_block c) stride ZX_ERR_INTERNAL s = (st, s1)"
    by (cases "probe_block np 6 (blk * pages_per_block c) stride ZX_ERR_INTERNAL s")
  have k: "k = unat (table_end_block c) + 1 - unat (blk + 1)"
    using Suc.prems(1) ub by simp
  have b: "unat (blk + 1) \<le> unat (table_end_block c) + 1"
    using le ub by (simp add: word_le_nat_alt)
  show ?case
  proof (cases "st = ZX_OK")
    case False
    from Suc.prems(3) have "valid_blocks + k \<le> kBlockListMax" by simp
    from Suc.IH [OF k b this, of s1] False le p show ?thesis
      by (simp add: scan_blocks.simps [of np c stride blk])
  next
    case True
    from Suc.prems(3) have vb: "valid_blocks < kBlockListMax" and n: "valid_blocks + 1 + k \<le> kBlockListMax"
      by simp_all
    let ?s2 = "s1\<lparr>block_list := (block_list s1)(valid_blocks :=
                \<lparr>block = blk, program_erase_cycles = oob_program_erase_cycles (oob s1), valid = True\<rparr>)\<rparr>"
    let ?s3 = "if magic (oob ?s2) = kBadBlockTableMagic \<and> oob_generation (oob ?s2) \<ge> generation ?s2
               then ?s2\<lparr>block_entry := Some valid_blocks, generation := oob_generation (oob ?s2)\<rparr>
               else ?s2"
    have "scan_blocks np c stride blk valid_blocks s = scan_blocks np c stride (blk + 1) (valid_blocks + 1) ?s3"
      using le p True vb by (simp add: scan_blocks.simps [of np c stride blk] Let_def)
    with Suc.IH [OF k b n, of ?s3] show ?thesis by simp
  qed
qed

text \<open>
  C8. The range check computes \<open>blocks = table_end_block - table_start_block\<close>, one less
  than the number of blocks of the inclusive range that the scan then visits. The range
  \<open>[60, 60]\<close> of one block is refused with \<open>NOT_SUPPORTED\<close>; the range \<open>[55, 63]\<close> of nine
  blocks is accepted (the scan runs, and overruns the array of eight entries); and the
  empty range from \<open>0xFFFFFFFE\<close> to \<open>2\<close>, whose difference wraps to 4, is accepted too.
\<close>

theorem reserved_range_off_by_one:
  "outcome (FindBadBlockTable (sim_nand [] [] 64) (sim_config 60 60) fresh) = Some (Inr ZX_ERR_NOT_SUPPORTED)
   \<and> outcome (FindBadBlockTable (sim_nand [] [] 64) (sim_config 55 63) fresh) = Some (Inl OutOfBounds)
   \<and> outcome (FindBadBlockTable (sim_nand [] [] 64) (sim_config 0xFFFFFFFE 2) fresh) = Some (Inr ZX_ERR_INTERNAL)"
  by code_simp

text \<open>
  C10. With the accepted range \<open>[0, 8]\<close> and every block readable, the ninth block is
  recorded at \<open>block_list[8]\<close>, past the capacity \<open>kBlockListMax = 8\<close>: discovery, and the
  first query that triggers it, end in an out-of-bounds write. With the range \<open>[0, 7]\<close>
  the scan stays within the array.
\<close>

theorem block_list_overrun:
  "outcome (FindBadBlockTable (sim_nand [] [] 64) (sim_config 0 8) fresh) = Some (Inl OutOfBounds)
   \<and> outcome (IsBlockBad (sim_nand [] [] 64) (sim_config 0 8) 5 fresh) = Some (Inl OutOfBounds)
   \<and> outcome (FindBadBlockTable (sim_nand [] [] 64) (sim_config 0 7) fresh) = Some (Inr ZX_ERR_INTERNAL)"
  by code_simp

subsection \<open>The range guard of \<open>is_bad\<close> and \<open>mark_bad\<close>\<close>

text \<open>
  C9. On a table of 64 entries the guard \<open>block > table_len\<close> lets \<open>block = 64\<close> through, and
  both \<open>is_bad(64)\<close> and \<open>mark_bad(64)\<close> then access \<open>table[64]\<close>, one past the end; from
  \<open>block = 65\<close> on the guard answers \<open>OUT_OF_RANGE\<close>.
\<close>

theorem guard_admits_num_blocks:
  "table_len (sim_config 60 63) = 64
   \<and> outcome (IsBlockBad (sim_nand [] [] 64) (sim_config 60 63) 64 hosted) = Some (Inl OutOfBounds)
   \<and> outcome (MarkBlockBad (sim_nand [] [] 64) (sim_config 60 63) 64 hosted) = Some (Inl OutOfBounds)
   \<and> outcome (IsBlockBad (sim_nand [] [] 64) (sim_config 60 63) 65 hosted) = Some (Inr ZX_ERR_OUT_OF_RANGE)
   \<and> outcome (MarkBlockBad (sim_nand [] [] 64) (sim_config 60 63) 65 hosted) = Some (Inr ZX_ERR_OUT_OF_RANGE)"
  by code_simp

subsection \<open>Least-PE-cycles selection\<close>

text \<open>
  What the scan does find: an eligible entry whose count is below \<open>0xFFFF\<close> and least
  among the eligible ones; and it finds nothing exactly when every eligible entry has
  the count \<open>0xFFFF\<close>.
\<close>

lemma least_pe_scan_least:
  "least_pe_scan bl be i l x = (l', x') \<Longrightarrow>
     l' \<le> l
     \<and> (\<forall>j. i \<le> j \<and> j < kBlockListMax \<and> valid (bl j) \<and> Some j \<noteq> be \<longrightarrow> l' \<le> program_erase_cycles (bl j))
     \<and> (x' = x \<and> l' = l
         \<or> i \<le> x' \<and> x' < kBlockListMax \<and> valid (bl x') \<and> Some x' \<noteq> be
            \<and> program_erase_cycles (bl x') = l' \<and> l' < l)"
proof (induction bl be i l x rule: least_pe_scan.induct)
  case (1 bl be i l x)
  show ?case
  proof (cases "i < kBlockListMax")
    case False
    with "1.prems" show ?thesis by auto
  next
    case lt: True
    show ?thesis
    proof (cases "valid (bl i) \<and> Some i \<noteq> be \<and> program_erase_cycles (bl i) < l")
      case True
      with lt "1.prems" have run: "least_pe_scan bl be (i + 1) (program_erase_cycles (bl i)) i = (l', x')"
        by simp
      note ih = "1.IH"(1) [OF lt True run]
      have "\<forall>j. i \<le> j \<and> j < kBlockListMax \<and> valid (bl j) \<and> Some j \<noteq> be \<longrightarrow> l' \<le> program_erase_cycles (bl j)"
      proof (intro allI impI)
        fix j assume j: "i \<le> j \<and> j < kBlockListMax \<and> valid (bl j) \<and> Some j \<noteq> be"
        show "l' \<le> program_erase_cycles (bl j)"
        proof (cases "j = i")
          case True
          with ih show ?thesis by simp
        next
          case False
          with j have "i + 1 \<le> j" by simp
          with j ih show ?thesis by blast
        qed
      qed
      moreover have "l' \<le> l" using ih True by auto
      moreover have "x' = x \<and> l' = l
         \<or> i \<le> x' \<and> x' < kBlockListMax \<and> valid (bl x') \<and> Some x' \<noteq> be
            \<and> program_erase_cycles (bl x') = l' \<and> l' < l"
        using ih True lt by auto
      ultimately show ?thesis by blast
    next
      case False
      with lt "1.prems" have run: "least_pe_scan bl be (i + 1) l x = (l', x')"
        by simp
      note ih = "1.IH"(2) [OF lt False run]
      have "\<forall>j. i \<le> j \<and> j < kBlockListMax \<and> valid (bl j) \<and> Some j \<noteq> be \<longrightarrow> l' \<le> program_erase_cycles (bl j)"
      proof (intro allI impI)
        fix j assume j: "i \<le> j \<and> j < kBlockListMax \<and> valid (bl j) \<and> Some j \<noteq> be"
        show "l' \<le> program_erase_cycles (bl j)"
        proof (cases "j = i")
          case True
          with j False have "l \<le> program_erase_cycles (bl j)" by auto
          with ih show ?thesis by auto
        next
          case False
          with j have "i + 1 \<le> j" by simp
          with j ih show ?thesis by blast
        qed
      qed
      moreover have "x' = x \<and> l' = l
         \<or> i \<le> x' \<and> x' < kBlockListMax \<and> valid (bl x') \<and> Some x' \<noteq> be
            \<and> program_erase_cycles (bl x') = l' \<and> l' < l"
        using ih by auto
      ultimately show ?thesis using ih by blast
    qed
  qed
qed

lemma find_least_pe_spec:
  "(find_least_pe s < kBlockListMax \<longrightarrow>
      eligible s (find_least_pe s)
      \<and> program_erase_cycles (block_list s (find_least_pe s)) < 0xFFFF
      \<and> (\<forall>j. eligible s j \<longrightarrow>
            program_erase_cycles (block_list s (find_least_pe s)) \<le> program_erase_cycles (block_list s j)))
   \<and> (\<not> find_least_pe s < kBlockListMax \<longrightarrow>
      find_least_pe s = kBlockListMax
      \<and> (\<forall>j. eligible s j \<longrightarrow> program_erase_cycles (block_list s j) = 0xFFFF))"
proof -
  obtain l' x' where run: "least_pe_scan (block_list s) (block_entry s) 0 0xFFFF kBlockListMax = (l', x')"
    by (cases "least_pe_scan (block_list s) (block_entry s) 0 0xFFFF kBlockListMax")
  then have x': "find_least_pe s = x'" by (simp add: find_least_pe_def)
  note f = least_pe_scan_least [OF run]
  have top: "w = 0xFFFF" if "0xFFFF \<le> w" for w :: "16 word"
  proof -
    have "unat w < 2 ^ 16" using unsigned_less [of w, where 'a = nat] by simp
    moreover from that have "65535 \<le> unat w" by (simp add: word_le_nat_alt)
    ultimately have "unat w = unat (0xFFFF :: 16 word)" by simp
    then show ?thesis by (simp only: word_unat_eq_iff [symmetric])
  qed
  show ?thesis
  proof (cases "x' < kBlockListMax")
    case True
    with f show ?thesis unfolding x' eligible_def by auto
  next
    case False
    with f have "x' = kBlockListMax" "l' = 0xFFFF" by auto
    with f top show ?thesis unfolding x' eligible_def by auto
  qed
qed

text \<open>
  C3. The scan starts from \<open>least_pe_cycles = UINT16_MAX\<close> and takes an entry only when its
  count is strictly less, so a valid entry other than the current host whose count is
  \<open>0xFFFF\<close> (what an erased OOB area reads as) is never chosen. Here entry 0 is the
  current host, which is full, and entry 1 is valid, on a good block, with the count
  \<open>0xFFFF\<close>: the scan finds nothing, \<^verbatim>\<open>GetNewBlock\<close> returns \<open>NOT_FOUND\<close>, and so does
  \<open>mark_bad\<close>.
\<close>

theorem least_pe_misses_0xFFFF:
  "valid (block_list erased_spare 1) \<and> block_entry erased_spare = Some 0
   \<and> table erased_spare (unat (block (block_list erased_spare 1))) = kNandBlockGood
   \<and> find_least_pe erased_spare = kBlockListMax
   \<and> outcome (Some (GetNewBlock (sim_nand [] [] 64) (sim_config 60 63) erased_spare)) = Some (Inr ZX_ERR_NOT_FOUND)
   \<and> outcome (MarkBlockBad (sim_nand [] [] 64) (sim_config 60 63) 5 erased_spare) = Some (Inr ZX_ERR_NOT_FOUND)"
  by code_simp

subsection \<open>The partition device against the core\<close>

text \<open>
  C4. The partition device caches the list that the core returns, in device block
  numbers, and compares it with the partition-relative argument. On the partition of
  the device blocks 2 to 5, with the device block 3 bad: \<open>is_bad(1)\<close> answers false though
  the core has the block \<open>2 + 1\<close> bad, and \<open>is_bad(3)\<close> answers true though the core has
  the block \<open>2 + 3\<close> good.
\<close>

theorem partition_is_bad_mismatch:
  "answer (NandPart_IsBlockBad (sim_nand [] [] 64) (sim_config 60 63) part_2_5 True 1 part_dev) = Some False
   \<and> answer (IsBlockBad (sim_nand [] [] 64) (sim_config 60 63) (erase_block_start part_2_5 + 1) (bad_block part_dev)) = Some True
   \<and> answer (NandPart_IsBlockBad (sim_nand [] [] 64) (sim_config 60 63) part_2_5 True 3 part_dev) = Some True
   \<and> answer (IsBlockBad (sim_nand [] [] 64) (sim_config 60 63) (erase_block_start part_2_5 + 3) (bad_block part_dev)) = Some False"
  by code_simp

end
